theory Spec2Isabelle
  imports Main "HOL-Library.Sublist" "HOL-Library.Char_ord" "HOL-Library.List_Lexorder"
begin

section \<open>Strings: the functions of Go's \<open>strings\<close> package that \<open>main.go\<close> calls\<close>

text \<open>
  A Go string is a sequence of bytes; it is modelled as \<^typ>\<open>string\<close> (a list of
  8-bit characters). \<open>strings.HasPrefix\<close> and \<open>strings.HasSuffix\<close> are the prefix and
  suffix tests on byte sequences.
\<close>

definition HasPrefix :: "string \<Rightarrow> string \<Rightarrow> bool" where
  "HasPrefix s p = prefix p s"

definition HasSuffix :: "string \<Rightarrow> string \<Rightarrow> bool" where
  "HasSuffix s p = suffix p s"

text \<open>
  \<open>strings.Replace(s, old, new, 1)\<close>: the first (leftmost) occurrence of \<open>old\<close> in \<open>s\<close>
  is replaced by \<open>new\<close>; a string without an occurrence is returned as it is. (An empty
  \<open>old\<close> matches at the beginning of the string.)
\<close>

fun Replace1 :: "string \<Rightarrow> string \<Rightarrow> string \<Rightarrow> string" where
  "Replace1 [] old new = (if old = [] then new else [])"
| "Replace1 (c # cs) old new =
     (if prefix old (c # cs) then new @ drop (length old) (c # cs)
      else c # Replace1 cs old new)"

section \<open>\<open>convertHTTPtoSSH\<close>\<close>

text \<open>
  \<^verbatim>\<open>
  func convertHTTPtoSSH(httpURL string) (string, error) {
      if !strings.HasPrefix(httpURL, "https://") {
          return "", fmt.Errorf("invalid URL format")
      }
      sshURL := strings.Replace(httpURL, "https://", "git@", 1)
      sshURL = strings.Replace(sshURL, "/", ":", 1)
      return sshURL, nil
  }
  \<close>
  The pair \<open>(string, error)\<close> is a sum: \<open>Inl\<close> carries the error's message (the
  returned string is then the empty string), \<open>Inr\<close> the URL (the error is \<open>nil\<close>).
\<close>

definition convertHTTPtoSSH :: "string \<Rightarrow> string + string" where
  "convertHTTPtoSSH httpURL =
     (if \<not> HasPrefix httpURL ''https://'' then Inl ''invalid URL format''
      else let sshURL = Replace1 httpURL ''https://'' ''git@'';
               sshURL = Replace1 sshURL ''/'' '':''
           in Inr sshURL)"

section \<open>Paths: the functions of Go's \<open>path/filepath\<close> package that \<open>main.go\<close> calls\<close>

text \<open>
  \<open>path/filepath\<close> belongs to Go's standard library; the functions are modelled
  after its documentation and its Unix implementation (separator \<open>/\<close>, no volume names).
  A path is processed element by element: \<open>split_sep\<close> cuts a string at every
  separator (as \<open>strings.Split(s, "/")\<close> does), \<open>join_sep\<close> is
  \<open>strings.Join(elems, "/")\<close>.
\<close>

fun split_sep :: "string \<Rightarrow> string list" where
  "split_sep [] = [[]]"
| "split_sep (c # cs) =
     (if c = CHR ''/'' then [] # split_sep cs
      else (case split_sep cs of [] \<Rightarrow> [[c]] | e # es \<Rightarrow> (c # e) # es))"

fun join_sep :: "string list \<Rightarrow> string" where
  "join_sep [] = []"
| "join_sep [e] = e"
| "join_sep (e # es) = e @ ''/'' @ join_sep es"

text \<open>
  \<open>filepath.Clean\<close> reads the path from left to right and writes the elements it keeps
  to an output buffer: an empty element and \<open>.\<close> are dropped; \<open>..\<close> removes the last
  element written when there is one that is not itself \<open>..\<close> (the buffer can
  backtrack), is dropped at the root of a rooted path, and is written otherwise; every
  other element is written. \<open>clean_elem\<close> is one step on the list of elements written
  so far.
\<close>

definition clean_elem :: "bool \<Rightarrow> string list \<Rightarrow> string \<Rightarrow> string list" where
  "clean_elem rooted out e =
     (if e = [] \<or> e = ''.'' then out
      else if e = ''..'' then
        (if out \<noteq> [] \<and> last out \<noteq> ''..'' then butlast out
         else if \<not> rooted then out @ [''..'']
         else out)
      else out @ [e])"

definition Clean :: "string \<Rightarrow> string" where
  "Clean path =
     (if path = [] then ''.''
      else let rooted = (hd path = CHR ''/'');
               out = foldl (clean_elem rooted) [] (split_sep path);
               res = (if rooted then ''/'' else []) @ join_sep out
           in if res = [] then ''.'' else res)"

text \<open>
  \<open>filepath.Dir\<close> drops the last element of the path: it cleans what stands before
  and including the last separator (the empty string when there is none).
  \<open>upto_last_sep\<close> is that part of the path.
\<close>

fun upto_last_sep :: "string \<Rightarrow> string" where
  "upto_last_sep [] = []"
| "upto_last_sep (c # cs) =
     (if CHR ''/'' \<in> set (c # cs) then c # upto_last_sep cs else [])"

definition Dir :: "string \<Rightarrow> string" where
  "Dir path = Clean (upto_last_sep path)"

text \<open>
  \<open>filepath.Join\<close> ignores leading empty elements, joins the others with the
  separator and cleans the result; it returns the empty string when every element is
  empty.
\<close>

fun Join :: "string list \<Rightarrow> string" where
  "Join [] = []"
| "Join (e # es) = (if e = [] then Join es else Clean (join_sep (e # es)))"

text \<open>
  \<open>filepath.Ext\<close>: the suffix of the path beginning at the last dot of its last
  element, empty when that element has no dot. \<open>ext_scan\<close> walks the reversed path as
  the source's loop walks it from the end.
\<close>

fun ext_scan :: "string \<Rightarrow> string \<Rightarrow> string" where
  "ext_scan [] acc = []"
| "ext_scan (c # cs) acc =
     (if c = CHR ''/'' then []
      else if c = CHR ''.'' then c # acc
      else ext_scan cs (c # acc))"

definition Ext :: "string \<Rightarrow> string" where
  "Ext path = ext_scan (rev path) []"

section \<open>\<open>getPackageName\<close>\<close>

text \<open>
  \<^verbatim>\<open>
  func getPackageName(modulePath, relativeFilePath string) string {
      fullPath := filepath.Join(modulePath, filepath.Dir(relativeFilePath))
      return fullPath
  }
  \<close>
\<close>

definition getPackageName :: "string \<Rightarrow> string \<Rightarrow> string" where
  "getPackageName modulePath relativeFilePath =
     (let fullPath = Join [modulePath, Dir relativeFilePath] in fullPath)"

section \<open>Slices: the functions of Go's \<open>slices\<close> package that \<open>main.go\<close> calls\<close>

text \<open>
  A slice is a view (pointer, length) of an array. \<open>slices.Sort\<close> sorts the array in
  place; on strings, which it compares byte-wise, the outcome is the sorted list. The
  list order on \<^typ>\<open>string\<close> is the lexicographic order of the bytes.
\<close>

definition Sort :: "string list \<Rightarrow> string list" where
  "Sort s = sort s"

text \<open>
  \<open>slices.Compact\<close> works in place as well and returns a shorter slice of the same
  array:
  \<^verbatim>\<open>
  func Compact[S ~[]E, E comparable](s S) S {
      if len(s) < 2 {
          return s
      }
      i := 1
      for k := 1; k < len(s); k++ {
          if s[k] != s[k-1] {
              if i != k {
                  s[i] = s[k]
              }
              i++
          }
      }
      clear(s[i:]) // zero/nil out the obsolete elements, for GC   (since Go 1.22)
      return s[:i]
  }
  \<close>
  The standard library of Go 1.21 has no \<open>clear\<close> line; since Go 1.22 the function
  zeroes the elements between the new and the original length. \<open>main.go\<close> compiles
  with both, so the model takes the library's behaviour as the parameter \<open>zeroes\<close>
  (\<open>True\<close> since Go 1.22). \<open>compact_loop\<close> is the loop on the array's contents;
  \<open>Compact\<close> returns the array's contents after the call, as the caller's slice
  \<open>s\<close> shows them, and the slice returned.
\<close>

function compact_loop :: "string list \<Rightarrow> nat \<Rightarrow> nat \<Rightarrow> string list \<times> nat" where
  "compact_loop s i k =
     (if k < length s then
        (if s ! k \<noteq> s ! (k - 1)
         then compact_loop (if i \<noteq> k then s[i := s ! k] else s) (i + 1) (k + 1)
         else compact_loop s i (k + 1))
      else (s, i))"
  by pat_completeness auto
termination
  by (relation "measure (\<lambda>(s, i, k). length s - k)") auto

declare compact_loop.simps [simp del]

definition Compact :: "bool \<Rightarrow> string list \<Rightarrow> string list \<times> string list" where
  "Compact zeroes s =
     (if length s < 2 then (s, s)
      else let (s1, i) = compact_loop s 1 1;
               s2 = (if zeroes then take i s1 @ replicate (length s1 - i) [] else s1)
           in (s2, take i s2))"

section \<open>The dependency graph\<close>

text \<open>
  \<open>dependancyGraph\<close> is a \<open>map[string][]string\<close>: a partial map from package nodes
  to the list of their imports. Reading a key that is absent yields the \<open>nil\<close> slice.
\<close>

type_synonym graph = "string \<rightharpoonup> string list"

definition deps_of :: "graph \<Rightarrow> string \<Rightarrow> string list" where
  "deps_of g k = (case g k of None \<Rightarrow> [] | Some ds \<Rightarrow> ds)"

text \<open>
  \<^verbatim>\<open>
  if _, ok := dependancyGraph[name]; !ok {
      dependancyGraph[name] = make([]string, 0)
  }
  \<close>
\<close>

definition ensure_node :: "graph \<Rightarrow> string \<Rightarrow> graph" where
  "ensure_node g name = (if g name = None then g(name \<mapsto> []) else g)"

text \<open>
  The body of the loop over a file's imports, after the import path has been cut out
  of its literal:
  \<^verbatim>\<open>
  if _, ok := dependancyGraph[dependancy]; !ok {
      dependancyGraph[dependancy] = make([]string, 0)
  }
  dependancyGraph[name] = append(dependancyGraph[name], dependancy)
  \<close>
\<close>

definition add_import :: "string \<Rightarrow> graph \<Rightarrow> string \<Rightarrow> graph" where
  "add_import name g dependancy =
     (let g1 = ensure_node g dependancy
      in g1(name \<mapsto> deps_of g1 name @ [dependancy]))"

text \<open>
  One element of the Graph Builder's input stream, a package node with the import paths
  of one of its files: the node is inserted when absent, then every import is added.
  \<open>build\<close> consumes a stream, starting from the empty map.
\<close>

definition add_package :: "graph \<Rightarrow> string \<times> string list \<Rightarrow> graph" where
  "add_package g = (\<lambda>(name, imports). foldl (add_import name) (ensure_node g name) imports)"

definition build :: "(string \<times> string list) list \<Rightarrow> graph" where
  "build stream = foldl add_package Map.empty stream"

text \<open>
  The last pass over the map:
  \<^verbatim>\<open>
  for _, deps := range dependancyGraph {
      slices.Sort(deps)
      slices.Compact(deps)
  }
  \<close>
  \<open>deps\<close> is a copy of the slice stored in the map, on the same array. Both calls
  write to that array; the slice \<open>Compact\<close> returns is dropped, and the slice in the
  map keeps its length. So the map's entry shows the array's contents after the two
  calls, at the original length. No two entries share an array (each grew from its own
  \<open>make\<close>), so the entries are processed independently and the order of the
  iteration does not matter.
\<close>

definition sort_compact :: "bool \<Rightarrow> string list \<Rightarrow> string list" where
  "sort_compact zeroes deps = fst (Compact zeroes (Sort deps))"

definition finalize :: "bool \<Rightarrow> graph \<Rightarrow> graph" where
  "finalize zeroes g = (\<lambda>k. map_option (sort_compact zeroes) (g k))"

section \<open>The run: \<open>main\<close>\<close>

text \<open>
  Every way the process ends early: a \<open>log.Fatal\<close> or \<open>log.Fatalf\<close> (exit status 1
  after the message) or a panic.
\<close>

datatype fatal =
    GraphvizNotInstalled
  | NoDirectoryPath
  | InvalidLink string
  | KeyFileError
  | CloneError
  | WorktreeError
  | GoModSearchError
  | GoModParseError
  | NilModulePanic
  | WalkError
  | ParseFileError
  | SliceBoundsPanic
  | WriteFileError
  | DotPanic

text \<open>
  What the file tree shows to the two walks. \<open>util.Walk\<close> calls the function it is
  given once per entry; an \<open>entry\<close> is one such call: the path, whether the walk
  passes an error for it, whether opening and reading the file fail, what
  \<open>modfile.Parse\<close> makes of its contents and what \<open>parser.ParseFile\<close> (imports
  only) makes of them. Both parsers are libraries; their results are data of the entry.
  \<open>parser.ParseFile\<close> reads the file itself, so a failing read is a failure of
  the parser. \<open>GoImports\<close> holds the import literals as written, quotes included
  (\<open>importSpec.Path.Value\<close>).
\<close>

datatype modfile_result = ModParseError | ModNoModule | ModPath string

datatype gofile_result = GoParseError | GoImports "string list"

record entry =
  path :: string
  walk_err :: bool
  open_err :: bool
  read_err :: bool
  modfile :: modfile_result
  gofile :: gofile_result

text \<open>
  The first walk looks for the module's name:
  \<^verbatim>\<open>
  var moduleName string
  err = util.Walk(tree.Filesystem, ".", func(path string, info fs.FileInfo, err error) error {
      if err != nil { return err }
      if strings.HasSuffix(path, "go.mod") {
          file, err := tree.Filesystem.Open(path)
          if err != nil { return err }
          ...
          if _, err := buf.ReadFrom(file); err != nil { return err }
          modFile, err := modfile.Parse(path, buf.Bytes(), nil)
          if err != nil { log.Fatalf("failed to parse go.mod file: %v", err) }
          moduleName = modFile.Module.Mod.Path
          return nil
      }
      return nil
  })
  if err != nil { log.Fatalf("failed to search the git work tree for the `go.mod` file: ...") }
  \<close>
  An error the function returns ends the walk, which returns it. A \<open>go.mod\<close>
  without a module directive parses, and \<open>modFile.Module\<close> is \<open>nil\<close>: reading its
  field panics. The second argument is \<open>moduleName\<close>, the empty string at the start.
\<close>

fun walk_gomod :: "entry list \<Rightarrow> string \<Rightarrow> fatal + string" where
  "walk_gomod [] moduleName = Inr moduleName"
| "walk_gomod (e # es) moduleName =
     (if walk_err e then Inl GoModSearchError
      else if HasSuffix (path e) ''go.mod'' then
        (if open_err e then Inl GoModSearchError
         else if read_err e then Inl GoModSearchError
         else (case modfile e of
                 ModParseError \<Rightarrow> Inl GoModParseError
               | ModNoModule \<Rightarrow> Inl NilModulePanic
               | ModPath p \<Rightarrow> walk_gomod es p))
      else walk_gomod es moduleName)"

text \<open>
  The loop over the imports of one file. \<open>Value[1 : len(Value)-1]\<close> cuts the quotes
  off the literal; the slice expression panics on a literal shorter than two bytes.
\<close>

definition unquote :: "string \<Rightarrow> string" where
  "unquote v = take (length v - 2) (drop 1 v)"

fun add_imports :: "string \<Rightarrow> graph \<Rightarrow> string list \<Rightarrow> fatal + graph" where
  "add_imports name g [] = Inr g"
| "add_imports name g (v # vs) =
     (if length v < 2 then Inl SliceBoundsPanic
      else add_imports name (add_import name g (unquote v)) vs)"

text \<open>
  The second walk builds the graph:
  \<^verbatim>\<open>
  err = util.Walk(tree.Filesystem, ".", func(path string, info fs.FileInfo, err error) error {
      if err != nil { return err }
      if filepath.Ext(path) == ".go" {
          file, err := tree.Filesystem.Open(path)
          if err != nil { return err }
          defer file.Close()
          name := getPackageName(moduleName, path)
          if _, ok := dependancyGraph[name]; !ok { dependancyGraph[name] = make([]string, 0) }
          source, err := parser.ParseFile(token.NewFileSet(), path, file, parser.ImportsOnly)
          if err != nil { log.Fatalf("Failed to parse file: %v", err) }
          for _, importSpec := range source.Imports { ... }
      }
      return nil
  })
  if err != nil { log.Fatal("failed to walk directory provided: %w", err) }
  \<close>
\<close>

fun walk_build :: "string \<Rightarrow> entry list \<Rightarrow> graph \<Rightarrow> fatal + graph" where
  "walk_build moduleName [] g = Inr g"
| "walk_build moduleName (e # es) g =
     (if walk_err e then Inl WalkError
      else if Ext (path e) = ''.go'' then
        (if open_err e then Inl WalkError
         else let name = getPackageName moduleName (path e);
                  g1 = ensure_node g name
              in (case gofile e of
                    GoParseError \<Rightarrow> Inl ParseFileError
                  | GoImports vs \<Rightarrow>
                      (case add_imports name g1 vs of
                         Inl f \<Rightarrow> Inl f
                       | Inr g2 \<Rightarrow> walk_build moduleName es g2)))
      else walk_build moduleName es g)"

text \<open>
  The rendered graph: the nodes and the directed edges (source, destination) handed to
  the graph library, in the order of the calls of \<open>AddNode\<close> and \<open>AddEdge\<close>. With
  \<open>nil\<close> attributes neither call fails. \<open>q\<close> stands for \<open>fmt.Sprintf("%q", _)\<close>,
  the quoted form of a name.
  \<^verbatim>\<open>
  for module, dependancies := range dependancyGraph {
      if !seen[module] {
          seen[module] = true
          graph.AddNode("G", fmt.Sprintf("%q", module), nil)
      }
      for _, dependancy := range dependancies {
          if !seen[dependancy] {
              seen[dependancy] = true
              graph.AddNode("G", fmt.Sprintf("%q", dependancy), nil)
          }
          graph.AddEdge(fmt.Sprintf("%q", dependancy), fmt.Sprintf("%q", module), true, nil)
      }
  }
  \<close>
  The state of the loops is the set \<open>seen\<close> and the graph rendered so far.
\<close>

record rendered =
  nodes :: "string list"
  edges :: "(string \<times> string) list"

definition mark_node :: "(string \<Rightarrow> string) \<Rightarrow> string \<Rightarrow> string set \<times> rendered \<Rightarrow> string set \<times> rendered" where
  "mark_node q name = (\<lambda>(seen, r).
     if name \<notin> seen then (insert name seen, r\<lparr>nodes := nodes r @ [q name]\<rparr>)
     else (seen, r))"

definition render_dep :: "(string \<Rightarrow> string) \<Rightarrow> string \<Rightarrow> string set \<times> rendered \<Rightarrow> string \<Rightarrow> string set \<times> rendered" where
  "render_dep q module st dependancy =
     (let (seen, r) = mark_node q dependancy st
      in (seen, r\<lparr>edges := edges r @ [(q dependancy, q module)]\<rparr>))"

definition render_module :: "(string \<Rightarrow> string) \<Rightarrow> graph \<Rightarrow> string set \<times> rendered \<Rightarrow> string \<Rightarrow> string set \<times> rendered" where
  "render_module q g st module =
     foldl (render_dep q module) (mark_node q module st) (deps_of g module)"

text \<open>
  The order in which \<open>range\<close> visits the keys of a map is not specified: \<open>keys\<close> is
  the order of this run, a list of the keys of the map, each once.
\<close>

definition render :: "(string \<Rightarrow> string) \<Rightarrow> string list \<Rightarrow> graph \<Rightarrow> rendered" where
  "render q keys g =
     snd (foldl (render_module q g) ({}, \<lparr>nodes = [], edges = []\<rparr>) keys)"

text \<open>
  What \<open>main\<close> meets outside the program: whether \<open>dot -V\<close> runs, the command line
  (\<open>os.Args\<close>, the program's name first), what becomes of the key file
  \<open>$HOME/.ssh/id_rsa\<close> (opened, read and parsed by \<open>ssh.NewPublicKeys\<close>), what
  \<open>git.Clone\<close> and \<open>repo.Worktree\<close> yield for a URL, whether \<open>graph.dot\<close> can be
  written and whether \<open>dot -Tpdf\<close> runs. Three more fields fix what the language and
  its library leave open: \<open>zeroes\<close> (see \<open>Compact\<close>), \<open>sprintf_q\<close> (the quoting
  \<open>%q\<close>) and \<open>range_keys\<close> (the order in which \<open>range\<close> visits a map's keys).
\<close>

datatype key_result = KeyOpenFails | KeyReadFails | KeyInvalid | KeyOk

datatype clone_result = CloneFails | WorktreeFails | Worktree "entry list"

record env =
  dot_version_ok :: bool
  args :: "string list"
  key_file :: key_result
  clone :: "string \<Rightarrow> clone_result"
  zeroes :: bool
  sprintf_q :: "string \<Rightarrow> string"
  range_keys :: "graph \<Rightarrow> string list"
  write_ok :: bool
  dot_pdf_ok :: bool

text \<open>
  The effects of a run on the outside, in their order: the two runs of \<open>dot\<close>, the
  read of the key file, the clone over the network, the write of \<open>graph.dot\<close>.
\<close>

datatype event =
    ExecDotVersion
  | ReadKeyFile
  | GitClone string
  | WriteGraphDot rendered
  | ExecDotPdf

text \<open>
  From the work tree to the rendered graph: the two walks, the sort-and-compact pass and
  the rendering loop. Nothing here touches the outside. \<open>graph_of\<close> is the
  dependency graph as the rendering loop receives it: the second walk from the empty map,
  then the last pass.
\<close>

definition graph_of :: "bool \<Rightarrow> string \<Rightarrow> entry list \<Rightarrow> fatal + graph" where
  "graph_of z moduleName tree =
     (case walk_build moduleName tree Map.empty of
        Inl f \<Rightarrow> Inl f
      | Inr dependancyGraph \<Rightarrow> Inr (finalize z dependancyGraph))"

definition analyse :: "env \<Rightarrow> entry list \<Rightarrow> fatal + rendered" where
  "analyse env tree =
     (case walk_gomod tree [] of
        Inl f \<Rightarrow> Inl f
      | Inr moduleName \<Rightarrow>
          (case graph_of (zeroes env) moduleName tree of
             Inl f \<Rightarrow> Inl f
           | Inr g \<Rightarrow> Inr (render (sprintf_q env) (range_keys env g) g)))"

text \<open>
  \<open>main\<close> returns the effects of the run and how it ends: \<open>Inl\<close> with the fatal
  error or panic, \<open>Inr\<close> with the graph written when the run reaches its end.
\<close>

definition main :: "env \<Rightarrow> event list \<times> (fatal + rendered)" where
  "main env =
     (if \<not> dot_version_ok env then ([ExecDotVersion], Inl GraphvizNotInstalled)
      else if length (args env) < 2 then ([ExecDotVersion], Inl NoDirectoryPath)
      else (case convertHTTPtoSSH (args env ! 1) of
        Inl err \<Rightarrow> ([ExecDotVersion], Inl (InvalidLink err))
      | Inr url \<Rightarrow>
          if key_file env \<noteq> KeyOk then ([ExecDotVersion, ReadKeyFile], Inl KeyFileError)
          else (case clone env url of
            CloneFails \<Rightarrow> ([ExecDotVersion, ReadKeyFile, GitClone url], Inl CloneError)
          | WorktreeFails \<Rightarrow> ([ExecDotVersion, ReadKeyFile, GitClone url], Inl WorktreeError)
          | Worktree tree \<Rightarrow>
              (case analyse env tree of
                 Inl f \<Rightarrow> ([ExecDotVersion, ReadKeyFile, GitClone url], Inl f)
               | Inr r \<Rightarrow>
                   if \<not> write_ok env then
                     ([ExecDotVersion, ReadKeyFile, GitClone url, WriteGraphDot r],
                      Inl WriteFileError)
                   else if \<not> dot_pdf_ok env then
                     ([ExecDotVersion, ReadKeyFile, GitClone url, WriteGraphDot r, ExecDotPdf],
                      Inl DotPanic)
                   else
                     ([ExecDotVersion, ReadKeyFile, GitClone url, WriteGraphDot r, ExecDotPdf],
                      Inr r)))))"

section \<open>Well-formed paths\<close>

text \<open>
  A plain path element is a name: not empty, without separator, and neither \<open>.\<close> nor
  \<open>..\<close>. A module path and the relative path of a file in the work tree are plain
  elements joined by separators.
\<close>

definition plain_elem :: "string \<Rightarrow> bool" where
  "plain_elem e = (e \<noteq> [] \<and> CHR ''/'' \<notin> set e \<and> e \<noteq> ''.'' \<and> e \<noteq> ''..'')"

section \<open>The stream of the Graph Builder\<close>

text \<open>
  The second walk feeds the graph with one pair per source file: the file's package node
  and its import paths. \<open>stream_of\<close> lists these pairs for a tree, in the order of
  the walk.
\<close>

fun stream_of :: "string \<Rightarrow> entry list \<Rightarrow> (string \<times> string list) list" where
  "stream_of moduleName [] = []"
| "stream_of moduleName (e # es) =
     (if Ext (path e) = ''.go'' then
        (case gofile e of
           GoParseError \<Rightarrow> stream_of moduleName es
         | GoImports vs \<Rightarrow>
             (getPackageName moduleName (path e), map unquote vs) # stream_of moduleName es)
      else stream_of moduleName es)"

section \<open>Example trees\<close>

text \<open>
  Entries of a work tree as the walks meet them without errors: a directory, a
  \<open>go.mod\<close> that declares a module, and a source file with its imports. \<open>lit\<close> is
  the literal of an import path of printable characters, the path between double quotes;
  \<open>fmt.Sprintf("%q", _)\<close> writes the same for such a string.
\<close>

definition lit :: "string \<Rightarrow> string" where
  "lit s = [CHR 0x22] @ s @ [CHR 0x22]"

definition dir_entry :: "string \<Rightarrow> entry" where
  "dir_entry p = \<lparr>path = p, walk_err = False, open_err = False, read_err = False,
     modfile = ModParseError, gofile = GoParseError\<rparr>"

definition gomod_entry :: "string \<Rightarrow> string \<Rightarrow> entry" where
  "gomod_entry p m = \<lparr>path = p, walk_err = False, open_err = False, read_err = False,
     modfile = ModPath m, gofile = GoParseError\<rparr>"

definition go_entry :: "string \<Rightarrow> string list \<Rightarrow> entry" where
  "go_entry p imports = \<lparr>path = p, walk_err = False, open_err = False, read_err = False,
     modfile = ModParseError, gofile = GoImports (map lit imports)\<rparr>"

text \<open>
  The project of the specification's end-to-end scenario: module \<open>root\<close>,
  \<open>main.go\<close> imports \<open>fmt\<close>, \<open>sub/a.go\<close> imports \<open>root\<close> and \<open>fmt\<close>.
\<close>

definition tree_example :: "entry list" where
  "tree_example =
     [dir_entry ''.'', gomod_entry ''go.mod'' ''root'', go_entry ''main.go'' [''fmt''],
      dir_entry ''sub'', go_entry ''sub/a.go'' [''root'', ''fmt'']]"

text \<open>A module with one file, which imports \<open>a\<close> twice and \<open>b\<close> once.\<close>

definition tree_aab :: "entry list" where
  "tree_aab =
     [dir_entry ''.'', gomod_entry ''go.mod'' ''example.com/mod'', dir_entry ''pkg'',
      go_entry ''pkg/file.go'' [''a'', ''a'', ''b'']]"

text \<open>A package of two files: one imports \<open>a\<close> and \<open>b\<close>, the other imports \<open>a\<close>.\<close>

definition tree_two_files :: "entry list" where
  "tree_two_files =
     [dir_entry ''.'', gomod_entry ''go.mod'' ''example.com/mod'', dir_entry ''pkg'',
      go_entry ''pkg/x.go'' [''a'', ''b''], go_entry ''pkg/y.go'' [''a'']]"

text \<open>
  The imports that the graph handed to the rendering loop holds for a package node of a
  tree (or the fatal error of the second walk).
\<close>

definition recorded :: "bool \<Rightarrow> string \<Rightarrow> entry list \<Rightarrow> string \<Rightarrow> fatal + string list" where
  "recorded z moduleName tree name =
     (case graph_of z moduleName tree of
        Inl f \<Rightarrow> Inl f
      | Inr g \<Rightarrow> Inr (deps_of g name))"

text \<open>The graph of the scenario after the last pass, as the rendering loop receives it.\<close>

definition graph_example :: graph where
  "graph_example = finalize True (build (stream_of ''root'' tree_example))"

text \<open>
  A run on the scenario in which nothing outside fails, and the same run on a tree
  without \<open>go.mod\<close>: a single file \<open>main.go\<close> that imports \<open>fmt\<close>.
\<close>

definition env_example :: env where
  "env_example =
     \<lparr>dot_version_ok = True,
      args = [''go-dep-visual'', ''https://github.com/user/repo''],
      key_file = KeyOk,
      clone = (\<lambda>url. if url = ''git@github.com:user/repo'' then Worktree tree_example
                      else CloneFails),
      zeroes = True,
      sprintf_q = lit,
      range_keys = (\<lambda>g. [''root'', ''fmt'', ''root/sub'']),
      write_ok = True,
      dot_pdf_ok = True\<rparr>"

definition tree_nomod :: "entry list" where
  "tree_nomod = [dir_entry ''.'', go_entry ''main.go'' [''fmt'']]"

definition env_nomod :: env where
  "env_nomod =
     env_example\<lparr>clone := (\<lambda>url. Worktree tree_nomod), range_keys := (\<lambda>g. [''.'', ''fmt''])\<rparr>"

text \<open>The scenario with a second source file whose import section does not parse.\<close>

definition tree_broken :: "entry list" where
  "tree_broken = tree_example @
     [\<lparr>path = ''sub/b.go'', walk_err = False, open_err = False, read_err = False,
       modfile = ModParseError, gofile = GoParseError\<rparr>]"

definition env_broken :: env where
  "env_broken = env_example\<lparr>clone := (\<lambda>url. Worktree tree_broken)\<rparr>"

text \<open>The scenario with a \<open>go.mod\<close> that does not parse.\<close>

definition tree_badmod :: "entry list" where
  "tree_badmod =
     [dir_entry ''.'',
      \<lparr>path = ''go.mod'', walk_err = False, open_err = False, read_err = False,
       modfile = ModParseError, gofile = GoParseError\<rparr>,
      go_entry ''main.go'' [''fmt'']]"

text \<open>A package of three files, each of which imports \<open>a\<close>.\<close>

definition tree_three_files :: "entry list" where
  "tree_three_files =
     [dir_entry ''.'', gomod_entry ''go.mod'' ''example.com/mod'', dir_entry ''pkg'',
      go_entry ''pkg/x.go'' [''a''], go_entry ''pkg/y.go'' [''a''], go_entry ''pkg/z.go'' [''a'']]"

text \<open>
  Whether a name is a key of the graph handed to the rendering loop (or the fatal error
  of the second walk).
\<close>

definition is_key :: "bool \<Rightarrow> string \<Rightarrow> entry list \<Rightarrow> string \<Rightarrow> fatal + bool" where
  "is_key z moduleName tree name =
     (case graph_of z moduleName tree of
        Inl f \<Rightarrow> Inl f
      | Inr g \<Rightarrow> Inr (g name \<noteq> None))"

text \<open>
  Runs on the packages of two and of three files in which nothing outside fails, with
  the library's behaviour \<open>z\<close>; \<open>range\<close> visits the package first.
\<close>

definition env_two_files :: "bool \<Rightarrow> env" where
  "env_two_files z =
     env_example\<lparr>clone := (\<lambda>url. Worktree tree_two_files), zeroes := z,
       range_keys := (\<lambda>g. [''example.com/mod/pkg'', ''a'', ''b''])\<rparr>"

definition env_three_files :: "bool \<Rightarrow> env" where
  "env_three_files z =
     env_example\<lparr>clone := (\<lambda>url. Worktree tree_three_files), zeroes := z,
       range_keys := (\<lambda>g. [''example.com/mod/pkg'', ''a''])\<rparr>"

section \<open>Properties of \<open>convertHTTPtoSSH\<close>\<close>

lemma Replace1_prefix: "old \<noteq> [] \<Longrightarrow> Replace1 (old @ rest) old new = new @ rest"
  by (cases old) auto

lemma Replace1_absent: "c \<notin> set s \<Longrightarrow> Replace1 s [c] new = s"
  by (induction s) auto

lemma Replace1_first: "c \<notin> set h \<Longrightarrow> Replace1 (h @ c # t) [c] new = h @ new @ t"
  by (induction h) auto

lemma convertHTTPtoSSH_https:
  "convertHTTPtoSSH (''https://'' @ rest) = Inr (Replace1 (''git@'' @ rest) ''/'' '':'')"
  unfolding convertHTTPtoSSH_def HasPrefix_def Let_def
  using Replace1_prefix [of "''https://''" rest "''git@''"] by simp

lemma Replace1_git:
  "Replace1 (''git@'' @ rest) ''/'' '':'' = ''git@'' @ Replace1 rest ''/'' '':''"
  by simp

text \<open>
  Claim C10. A string that begins with \<open>https://\<close> is converted: the prefix becomes
  \<open>git@\<close> and the first separator after it (the one between host and path) becomes a
  colon; when no separator follows the prefix, only the prefix is replaced. A string
  that does not begin with \<open>https://\<close> yields the error and no URL.
\<close>

theorem convertHTTPtoSSH_spec:
  "(\<forall>s. HasPrefix s ''https://'' \<longrightarrow>
      convertHTTPtoSSH s = Inr (''git@'' @ Replace1 (drop 8 s) ''/'' '':'')) \<and>
   (\<forall>h t. CHR ''/'' \<notin> set h \<longrightarrow>
      convertHTTPtoSSH (''https://'' @ h @ ''/'' @ t) = Inr (''git@'' @ h @ '':'' @ t)) \<and>
   (\<forall>rest. CHR ''/'' \<notin> set rest \<longrightarrow>
      convertHTTPtoSSH (''https://'' @ rest) = Inr (''git@'' @ rest)) \<and>
   (\<forall>s. \<not> HasPrefix s ''https://'' \<longrightarrow> convertHTTPtoSSH s = Inl ''invalid URL format'')"
proof (intro conjI allI impI)
  fix s
  assume "HasPrefix s ''https://''"
  then obtain rest where s: "s = ''https://'' @ rest"
    unfolding HasPrefix_def by (rule prefixE)
  have "drop 8 s = rest"
    unfolding s by simp
  then show "convertHTTPtoSSH s = Inr (''git@'' @ Replace1 (drop 8 s) ''/'' '':'')"
    unfolding s using convertHTTPtoSSH_https [of rest] Replace1_git [of rest] by simp
next
  fix h t :: string
  assume h: "CHR ''/'' \<notin> set h"
  then have "CHR ''/'' \<notin> set (''git@'' @ h)" by simp
  then have "Replace1 ((''git@'' @ h) @ CHR ''/'' # t) ''/'' '':'' = (''git@'' @ h) @ '':'' @ t"
    by (rule Replace1_first)
  then show "convertHTTPtoSSH (''https://'' @ h @ ''/'' @ t) = Inr (''git@'' @ h @ '':'' @ t)"
    using convertHTTPtoSSH_https [of "h @ ''/'' @ t"] by simp
next
  fix rest :: string
  assume "CHR ''/'' \<notin> set rest"
  then have "CHR ''/'' \<notin> set (''git@'' @ rest)" by simp
  then have "Replace1 (''git@'' @ rest) ''/'' '':'' = ''git@'' @ rest"
    by (rule Replace1_absent)
  then show "convertHTTPtoSSH (''https://'' @ rest) = Inr (''git@'' @ rest)"
    using convertHTTPtoSSH_https [of rest] by simp
next
  fix s
  assume "\<not> HasPrefix s ''https://''"
  then show "convertHTTPtoSSH s = Inl ''invalid URL format''"
    by (simp add: convertHTTPtoSSH_def)
qed

theorem convertHTTPtoSSH_spec_witness:
  "convertHTTPtoSSH ''https://github.com/user/repo'' = Inr ''git@github.com:user/repo'' \<and>
   convertHTTPtoSSH ''https://localhost'' = Inr ''git@localhost'' \<and>
   convertHTTPtoSSH ''http://github.com/user/repo'' = Inl ''invalid URL format''"
proof -
  have a: "CHR ''/'' \<notin> set ''github.com''" by simp
  have b: "CHR ''/'' \<notin> set ''localhost''" by simp
  have c: "\<not> HasPrefix ''http://github.com/user/repo'' ''https://''"
    by (simp add: HasPrefix_def)
  from convertHTTPtoSSH_spec have
    "convertHTTPtoSSH (''https://'' @ ''github.com'' @ ''/'' @ ''user/repo'') =
       Inr (''git@'' @ ''github.com'' @ '':'' @ ''user/repo'')"
    "convertHTTPtoSSH (''https://'' @ ''localhost'') = Inr (''git@'' @ ''localhost'')"
    "convertHTTPtoSSH ''http://github.com/user/repo'' = Inl ''invalid URL format''"
    using a b c by blast+
  then show ?thesis by simp
qed

section \<open>Properties of \<open>getPackageName\<close>\<close>

lemma split_sep_not_Nil [simp]: "split_sep s \<noteq> []"
  by (induction s) (auto split: list.splits)

lemma split_sep_no_sep: "CHR ''/'' \<notin> set e \<Longrightarrow> split_sep e = [e]"
  by (induction e) auto

lemma split_sep_append: "CHR ''/'' \<notin> set e \<Longrightarrow> split_sep (e @ CHR ''/'' # s) = e # split_sep s"
  by (induction e) auto

lemma split_sep_join_sep:
  "es \<noteq> [] \<Longrightarrow> list_all (\<lambda>e. CHR ''/'' \<notin> set e) es \<Longrightarrow> split_sep (join_sep es) = es"
  by (induction es rule: join_sep.induct) (auto simp: split_sep_no_sep split_sep_append)

lemma join_sep_append:
  "xs \<noteq> [] \<Longrightarrow> ys \<noteq> [] \<Longrightarrow> join_sep (xs @ ys) = join_sep xs @ ''/'' @ join_sep ys"
  by (induction xs rule: join_sep.induct) (auto simp: neq_Nil_conv)

lemma join_sep_Cons: "join_sep (e # es) = (if es = [] then e else e @ ''/'' @ join_sep es)"
  by (cases es) auto

lemma hd_join_sep_Cons:
  "a \<noteq> [] \<Longrightarrow> CHR ''/'' \<notin> set a \<Longrightarrow> hd (join_sep (a # l)) \<noteq> CHR ''/''"
  by (cases a) (auto simp: join_sep_Cons)

lemma hd_join_sep_plain:
  "es \<noteq> [] \<Longrightarrow> list_all plain_elem es \<Longrightarrow> hd (join_sep (es @ r)) \<noteq> CHR ''/''"
proof (cases es)
  case Nil
  assume "es \<noteq> []"
  with Nil show ?thesis by simp
next
  case (Cons a l)
  assume "list_all plain_elem es"
  with Cons have "a \<noteq> []" "CHR ''/'' \<notin> set a"
    by (simp_all add: plain_elem_def)
  then have "hd (join_sep (a # (l @ r))) \<noteq> CHR ''/''"
    by (rule hd_join_sep_Cons)
  with Cons show ?thesis by simp
qed

lemma join_sep_plain_not_Nil:
  "es \<noteq> [] \<Longrightarrow> list_all plain_elem es \<Longrightarrow> join_sep (es @ r) \<noteq> []"
proof (cases es)
  case Nil
  assume "es \<noteq> []"
  with Nil show ?thesis by simp
next
  case (Cons a l)
  assume "list_all plain_elem es"
  with Cons have "a \<noteq> []"
    by (simp add: plain_elem_def)
  then have "join_sep (a # (l @ r)) \<noteq> []"
    by (simp add: join_sep_Cons)
  with Cons show ?thesis by simp
qed

lemma plain_elem_no_sep: "list_all plain_elem es \<Longrightarrow> list_all (\<lambda>e. CHR ''/'' \<notin> set e) es"
  by (induction es) (simp_all add: plain_elem_def)

lemma foldl_clean_elem_plain:
  "list_all plain_elem es \<Longrightarrow> foldl (clean_elem r) out es = out @ es"
  by (induction es arbitrary: out) (auto simp: clean_elem_def plain_elem_def)

lemma Clean_unrooted:
  "p \<noteq> [] \<Longrightarrow> hd p \<noteq> CHR ''/'' \<Longrightarrow>
   Clean p = (if join_sep (foldl (clean_elem False) [] (split_sep p)) = [] then ''.''
              else join_sep (foldl (clean_elem False) [] (split_sep p)))"
  by (simp add: Clean_def)

text \<open>Cleaning plain elements followed by one element that is empty or a dot.\<close>

lemma Clean_plain_then:
  assumes "es \<noteq> []" "list_all plain_elem es" "e = [] \<or> e = ''.''"
  shows "Clean (join_sep (es @ [e])) = join_sep es"
proof -
  have ne: "join_sep (es @ [e]) \<noteq> []"
    using assms(1,2) by (rule join_sep_plain_not_Nil)
  have "CHR ''/'' \<notin> set e"
    using assms(3) by auto
  then have nosep: "list_all (\<lambda>e. CHR ''/'' \<notin> set e) (es @ [e])"
    using plain_elem_no_sep [OF assms(2)] by simp
  have hd: "hd (join_sep (es @ [e])) \<noteq> CHR ''/''"
    using assms(1,2) by (rule hd_join_sep_plain)
  have sp: "split_sep (join_sep (es @ [e])) = es @ [e]"
    using nosep by (simp add: split_sep_join_sep)
  have "clean_elem False es e = es"
    using assms(3) by (auto simp: clean_elem_def)
  then have fo: "foldl (clean_elem False) [] (es @ [e]) = es"
    using assms(2) by (simp add: foldl_clean_elem_plain)
  have res: "join_sep es \<noteq> []"
    using join_sep_plain_not_Nil [OF assms(1,2), of "[]"] by simp
  show ?thesis
    unfolding Clean_unrooted [OF ne hd] sp fo using res by simp
qed

lemma Clean_plain:
  assumes "es \<noteq> []" "list_all plain_elem es"
  shows "Clean (join_sep es) = join_sep es"
proof -
  have ne: "join_sep es \<noteq> []"
    using join_sep_plain_not_Nil [OF assms, of "[]"] by simp
  have hd: "hd (join_sep es) \<noteq> CHR ''/''"
    using hd_join_sep_plain [OF assms, of "[]"] by simp
  have sp: "split_sep (join_sep es) = es"
    using plain_elem_no_sep [OF assms(2)] assms(1) by (simp add: split_sep_join_sep)
  have fo: "foldl (clean_elem False) [] es = es"
    using assms(2) by (simp add: foldl_clean_elem_plain)
  show ?thesis
    unfolding Clean_unrooted [OF ne hd] sp fo using ne by simp
qed

lemma upto_last_sep_no_sep: "CHR ''/'' \<notin> set f \<Longrightarrow> upto_last_sep f = []"
  by (cases f) auto

lemma upto_last_sep_append:
  "upto_last_sep (a @ CHR ''/'' # b) = a @ CHR ''/'' # upto_last_sep b"
  by (induction a) auto

lemma upto_last_sep_join_sep:
  "CHR ''/'' \<notin> set f \<Longrightarrow> upto_last_sep (join_sep (ds @ [f])) = join_sep (ds @ [[]])"
proof (induction ds)
  case Nil
  then show ?case by (simp add: upto_last_sep_no_sep)
next
  case (Cons d ds)
  have "join_sep ((d # ds) @ [x]) = d @ CHR ''/'' # join_sep (ds @ [x])" for x
    by (cases ds) auto
  then show ?case
    using Cons by (simp add: upto_last_sep_append)
qed

lemma Dir_file:
  assumes "list_all plain_elem ds" "CHR ''/'' \<notin> set f"
  shows "Dir (join_sep (ds @ [f])) = (if ds = [] then ''.'' else join_sep ds)"
proof (cases "ds = []")
  case True
  then show ?thesis
    using assms(2) by (simp add: Dir_def upto_last_sep_no_sep Clean_def)
next
  case False
  then show ?thesis
    using assms Clean_plain_then [of ds "[]"]
    by (simp add: Dir_def upto_last_sep_join_sep)
qed

lemma getPackageName_plain:
  assumes "ms \<noteq> []" "list_all plain_elem ms" "list_all plain_elem ds" "plain_elem f"
  shows "getPackageName (join_sep ms) (join_sep (ds @ [f])) = join_sep (ms @ ds)"
proof -
  have M: "join_sep ms \<noteq> []"
    using join_sep_plain_not_Nil [OF assms(1,2), of "[]"] by simp
  have D: "Dir (join_sep (ds @ [f])) = (if ds = [] then ''.'' else join_sep ds)"
    using assms(3,4) by (simp add: Dir_file plain_elem_def)
  show ?thesis
  proof (cases "ds = []")
    case True
    have "Clean (join_sep (ms @ [''.''])) = join_sep ms"
      using assms(1,2) by (rule Clean_plain_then) simp
    then show ?thesis
      using True M D assms(1) by (simp add: getPackageName_def join_sep_append)
  next
    case False
    have "Clean (join_sep (ms @ ds)) = join_sep (ms @ ds)"
      using assms(1,2,3) by (intro Clean_plain) auto
    then show ?thesis
      using False M D assms(1) by (simp add: getPackageName_def join_sep_append)
  qed
qed

text \<open>
  Claim C3. The package node of a file is the module root joined with the directory of
  the file's relative path. For the two paths of the specification the result is
  \<open>example.com/mod/pkg\<close> and \<open>example.com/mod\<close>. In general, for a module root
  \<open>m\<^sub>1/\<dots>/m\<^sub>k\<close> and a file \<open>d\<^sub>1/\<dots>/d\<^sub>j/f\<close> of plain elements the node is
  \<open>m\<^sub>1/\<dots>/m\<^sub>k/d\<^sub>1/\<dots>/d\<^sub>j\<close>, and a file at the root of the tree maps to the module
  root itself.
\<close>

theorem getPackageName_spec:
  "getPackageName M p = Join [M, Dir p] \<and>
   getPackageName ''example.com/mod'' ''pkg/file.go'' = ''example.com/mod/pkg'' \<and>
   getPackageName ''example.com/mod'' ''file.go'' = ''example.com/mod'' \<and>
   (ms \<noteq> [] \<and> list_all plain_elem ms \<and> list_all plain_elem ds \<and> plain_elem f \<longrightarrow>
      getPackageName (join_sep ms) (join_sep (ds @ [f])) = join_sep (ms @ ds) \<and>
      getPackageName (join_sep ms) f = join_sep ms)"
proof (intro conjI impI)
  show "getPackageName M p = Join [M, Dir p]"
    by (simp add: getPackageName_def)
  show "getPackageName ''example.com/mod'' ''pkg/file.go'' = ''example.com/mod/pkg''"
    by (simp add: getPackageName_def Dir_def Clean_def clean_elem_def)
  show "getPackageName ''example.com/mod'' ''file.go'' = ''example.com/mod''"
    by (simp add: getPackageName_def Dir_def Clean_def clean_elem_def)
next
  assume a: "ms \<noteq> [] \<and> list_all plain_elem ms \<and> list_all plain_elem ds \<and> plain_elem f"
  then show "getPackageName (join_sep ms) (join_sep (ds @ [f])) = join_sep (ms @ ds)"
    by (simp add: getPackageName_plain)
  from a have "getPackageName (join_sep ms) (join_sep ([] @ [f])) = join_sep (ms @ [])"
    by (intro getPackageName_plain) auto
  then show "getPackageName (join_sep ms) f = join_sep ms"
    by simp
qed

theorem getPackageName_spec_witness:
  "getPackageName ''github.com/acme/tool'' ''internal/graph/build.go'' =
     ''github.com/acme/tool/internal/graph'' \<and>
   getPackageName ''github.com/acme/tool'' ''build.go'' = ''github.com/acme/tool''"
proof -
  have h: "[''github.com'', ''acme'', ''tool''] \<noteq> [] \<and>
      list_all plain_elem [''github.com'', ''acme'', ''tool''] \<and>
      list_all plain_elem [''internal'', ''graph''] \<and> plain_elem ''build.go''"
    by (simp add: plain_elem_def)
  show ?thesis
    using getPackageName_spec [of "[]" "[]" "[''github.com'', ''acme'', ''tool'']"
        "[''internal'', ''graph'']" "''build.go''"] h
    by simp
qed

section \<open>Properties of \<open>Compact\<close> and of the last pass\<close>

lemma remdups_adj_snoc:
  "xs \<noteq> [] \<Longrightarrow> remdups_adj (xs @ [y]) = (if y = last xs then remdups_adj xs else remdups_adj xs @ [y])"
  by (simp add: remdups_adj_append'')

lemma last_take_nth: "0 < k \<Longrightarrow> k \<le> length xs \<Longrightarrow> last (take k xs) = xs ! (k - 1)"
  by (cases k) (simp_all add: take_Suc_conv_app_nth)

lemma nth_eq_of_drop_eq:
  assumes "drop i s = drop i xs" "i \<le> j" "length s = length xs" "j < length s"
  shows "s ! j = xs ! j"
proof -
  have j: "i + (j - i) = j" using assms(2) by simp
  have "s ! (i + (j - i)) = drop i s ! (j - i)"
    using assms(2,4) by (simp del: le_add_diff_inverse)
  also have "\<dots> = drop i xs ! (j - i)" using assms(1) by simp
  also have "\<dots> = xs ! (i + (j - i))"
    using assms(2,3,4) by (simp del: le_add_diff_inverse)
  finally show ?thesis using j by simp
qed

lemma remdups_adj_take_Suc:
  assumes "0 < k" "k < length xs"
  shows "remdups_adj (take (Suc k) xs) =
    (if xs ! k = xs ! (k - 1) then remdups_adj (take k xs) else remdups_adj (take k xs) @ [xs ! k])"
proof -
  have ne: "take k xs \<noteq> []"
    using assms by auto
  have "last (take k xs) = xs ! (k - 1)"
    using assms by (simp add: last_take_nth)
  then show ?thesis
    using assms remdups_adj_snoc [OF ne, of "xs ! k"]
    by (simp add: take_Suc_conv_app_nth)
qed

lemma compact_loop_inv:
  "length s = length xs \<Longrightarrow> 0 < i \<Longrightarrow> i \<le> k \<Longrightarrow> k \<le> length xs \<Longrightarrow>
   take i s = remdups_adj (take k xs) \<Longrightarrow> drop i s = drop i xs \<Longrightarrow>
   compact_loop s i k =
     (remdups_adj xs @ drop (length (remdups_adj xs)) xs, length (remdups_adj xs))"
proof (induction s i k rule: compact_loop.induct)
  case (1 s i k)
  show ?case
  proof (cases "k < length s")
    case False
    with 1 have k: "k = length xs" by simp
    with 1 have t: "take i s = remdups_adj xs" by simp
    then have "length (remdups_adj xs) = i"
      using 1 by (metis length_take min.absorb2 k)
    moreover have "s = take i s @ drop i s" by simp
    ultimately show ?thesis
      using False t 1(8) by (simp add: compact_loop.simps)
  next
    case True
    have len: "length s = length xs" by fact
    have sk: "s ! k = xs ! k"
      using 1(8,5) len True by (rule nth_eq_of_drop_eq)
    have sk1: "s ! (k - 1) = xs ! (k - 1)"
    proof (cases "i = k")
      case True
      have "s ! (k - 1) = last (take i s)"
        using True 1(4) \<open>k < length s\<close> by (simp add: last_take_nth)
      also have "\<dots> = last (take k xs)" using 1(7) by simp
      also have "\<dots> = xs ! (k - 1)"
        using 1(4,5) \<open>k < length s\<close> len by (simp add: last_take_nth)
      finally show ?thesis .
    next
      case False
      then have ik: "i \<le> k - 1" using 1(5) by simp
      have "k - 1 < length s" using True by simp
      with 1(8) ik len show ?thesis by (rule nth_eq_of_drop_eq)
    qed
    have k0: "0 < k" using 1(4,5) by simp
    have kx: "k < length xs" using True len by simp
    show ?thesis
    proof (cases "xs ! k = xs ! (k - 1)")
      case True
      have "compact_loop s i k = compact_loop s i (k + 1)"
        using \<open>k < length s\<close> sk sk1 True by (subst compact_loop.simps) simp
      also have "\<dots> = (remdups_adj xs @ drop (length (remdups_adj xs)) xs, length (remdups_adj xs))"
      proof (rule 1(2))
        show "k < length s" by fact
        show "\<not> s ! k \<noteq> s ! (k - 1)" using sk sk1 True by simp
        show "length s = length xs" by fact
        show "0 < i" by fact
        show "i \<le> k + 1" using 1(5) by simp
        show "k + 1 \<le> length xs" using kx by simp
        show "take i s = remdups_adj (take (k + 1) xs)"
          using remdups_adj_take_Suc [OF k0 kx] True 1(7) by simp
        show "drop i s = drop i xs" by fact
      qed
      finally show ?thesis .
    next
      case False
      let ?s = "if i \<noteq> k then s[i := s ! k] else s"
      have "s[k := s ! k] = s" by (rule list_update_id)
      then have upd: "?s = s[i := xs ! k]"
        using sk by (cases "i = k") simp_all
      have "compact_loop s i k = compact_loop ?s (i + 1) (k + 1)"
        using \<open>k < length s\<close> sk sk1 False by (subst compact_loop.simps) simp
      also have "\<dots> = (remdups_adj xs @ drop (length (remdups_adj xs)) xs, length (remdups_adj xs))"
      proof (rule 1(1))
        show "k < length s" by fact
        show "s ! k \<noteq> s ! (k - 1)" using sk sk1 False by simp
        show "length ?s = length xs" using len by simp
        show "0 < i + 1" by simp
        show "i + 1 \<le> k + 1" using 1(5) by simp
        show "k + 1 \<le> length xs" using kx by simp
        have il: "i < length s" using 1(5) \<open>k < length s\<close> by simp
        have "take (i + 1) ?s = take i (s[i := xs ! k]) @ [xs ! k]"
          unfolding upd using il by (simp add: take_Suc_conv_app_nth)
        also have "\<dots> = take i s @ [xs ! k]" by simp
        also have "\<dots> = remdups_adj (take (k + 1) xs)"
          using remdups_adj_take_Suc [OF k0 kx] False 1(7) by simp
        finally show "take (i + 1) ?s = remdups_adj (take (k + 1) xs)" .
        have "drop (i + 1) ?s = drop (i + 1) s"
          unfolding upd by simp
        also have "\<dots> = drop 1 (drop i s)" by simp
        also have "\<dots> = drop 1 (drop i xs)" using 1(8) by simp
        finally show "drop (i + 1) ?s = drop (i + 1) xs" by simp
      qed
      finally show ?thesis .
    qed
  qed
qed

lemma compact_loop_eq:
  assumes "2 \<le> length s"
  shows "compact_loop s 1 1 = (remdups_adj s @ drop (length (remdups_adj s)) s, length (remdups_adj s))"
proof (rule compact_loop_inv)
  show "take 1 s = remdups_adj (take 1 s)"
    by (cases s) simp_all
qed (use assms in simp_all)

lemma Compact_eq:
  "Compact z s =
     (remdups_adj s @ (if z then replicate (length s - length (remdups_adj s)) []
                       else drop (length (remdups_adj s)) s),
      remdups_adj s)"
proof (cases "length s < 2")
  case True
  then have "remdups_adj s = s"
    by (cases s rule: remdups_adj.cases) simp_all
  with True show ?thesis by (simp add: Compact_def)
next
  case False
  then have "2 \<le> length s" by simp
  from compact_loop_eq [OF this] False show ?thesis
    by (simp add: Compact_def)
qed

lemma distinct_remdups_adj_sorted: "sorted xs \<Longrightarrow> distinct (remdups_adj xs)"
  by (induction xs rule: remdups_adj.induct) (auto dest: antisym)

lemma remdups_adj_sort: "remdups_adj (sort ds) = sorted_list_of_set (set ds)"
proof (rule sorted_distinct_set_unique)
  show "sorted (remdups_adj (sort ds))" by simp
  show "distinct (remdups_adj (sort ds))" by (simp add: distinct_remdups_adj_sorted)
qed simp_all

lemma remdups_adj_Sort: "remdups_adj (Sort ds) = sorted_list_of_set (set ds)"
  by (simp add: Sort_def remdups_adj_sort)

lemma sort_compact_eq:
  "sort_compact z ds =
     sorted_list_of_set (set ds) @
       (if z then replicate (length ds - card (set ds)) []
        else drop (card (set ds)) (Sort ds))"
  by (simp add: sort_compact_def Compact_eq remdups_adj_Sort) (simp add: Sort_def)

lemma Compact_returns: "snd (Compact z (Sort ds)) = sorted_list_of_set (set ds)"
  by (simp add: Compact_eq remdups_adj_Sort)

lemma length_sort_compact [simp]: "length (sort_compact z ds) = length ds"
proof -
  have "card (set ds) \<le> length ds" by (rule card_length)
  then show ?thesis by (simp add: sort_compact_eq Sort_def)
qed

lemma set_sort_compact_False: "set (sort_compact False ds) = set ds"
proof -
  have "set (drop (card (set ds)) (Sort ds)) \<subseteq> set ds"
    using set_drop_subset [of "card (set ds)" "Sort ds"] by (simp add: Sort_def)
  then show ?thesis by (auto simp: sort_compact_eq)
qed

lemma set_sort_compact_True:
  "set (sort_compact True ds) = set ds \<union> (if distinct ds then {} else {[]})"
proof -
  have "card (set ds) = length ds \<longleftrightarrow> distinct ds"
    using card_distinct distinct_card by metis
  moreover have "card (set ds) \<le> length ds" by (rule card_length)
  ultimately have "length ds - card (set ds) = 0 \<longleftrightarrow> distinct ds" by auto
  then show ?thesis by (auto simp: sort_compact_eq)
qed

lemma sort_compact_distinct: "distinct ds \<Longrightarrow> sort_compact z ds = sort ds"
  by (simp add: sort_compact_eq distinct_card Sort_def sorted_list_of_set_sort_remdups distinct_remdups_id)

text \<open>A list with a duplicate keeps its length, so the entry is no duplicate-free listing of the imports.\<close>

lemma sort_compact_duplicate:
  assumes "\<not> distinct ds"
  shows "\<not> (distinct (sort_compact z ds) \<and> set (sort_compact z ds) = set ds)"
proof
  assume a: "distinct (sort_compact z ds) \<and> set (sort_compact z ds) = set ds"
  then have "card (set ds) = length (sort_compact z ds)"
    using distinct_card by metis
  then have "card (set ds) = length ds" by simp
  then have "distinct ds" by (rule card_distinct)
  with assms show False by simp
qed

lemma dom_finalize [simp]: "dom (finalize z g) = dom g"
  by (auto simp: finalize_def dom_def)

lemma finalize_Some: "g k = Some ds \<Longrightarrow> finalize z g k = Some (sort_compact z ds)"
  by (simp add: finalize_def)

lemma deps_of_finalize: "deps_of (finalize z g) k = sort_compact z (deps_of g k)"
  by (cases "g k") (simp_all add: deps_of_def finalize_def sort_compact_eq Sort_def)

section \<open>Properties of the Graph Builder\<close>

lemma dom_ensure_node [simp]: "dom (ensure_node g k) = insert k (dom g)"
  by (auto simp: ensure_node_def)

lemma deps_of_ensure_node [simp]: "deps_of (ensure_node g k) j = deps_of g j"
  by (simp add: ensure_node_def deps_of_def)

lemma dom_add_import [simp]: "dom (add_import name g d) = insert name (insert d (dom g))"
  by (simp add: add_import_def Let_def)

lemma deps_of_add_import:
  "deps_of (add_import name g d) k = (if k = name then deps_of g name @ [d] else deps_of g k)"
proof -
  have "deps_of ((ensure_node g d)(name \<mapsto> v)) k =
      (if k = name then v else deps_of g k)" for v
    using deps_of_ensure_node [of g d k] by (simp add: deps_of_def)
  then show ?thesis
    by (simp add: add_import_def Let_def)
qed

lemma dom_foldl_add_import:
  "dom (foldl (add_import name) g ds) = dom g \<union> set ds \<union> (if ds = [] then {} else {name})"
  by (induction ds arbitrary: g) auto

lemma deps_of_foldl_add_import:
  "deps_of (foldl (add_import name) g ds) k =
     (if k = name then deps_of g name @ ds else deps_of g k)"
  by (induction ds arbitrary: g) (simp_all add: deps_of_add_import)

lemma dom_add_package [simp]:
  "dom (add_package g (name, ds)) = insert name (dom g \<union> set ds)"
  by (auto simp: add_package_def dom_foldl_add_import)

lemma deps_of_add_package:
  "deps_of (add_package g (name, ds)) k = deps_of g k @ (if k = name then ds else [])"
  by (simp add: add_package_def deps_of_foldl_add_import)

text \<open>What a stream leaves in the map: the keys, and under each key its imports in the order fed.\<close>

lemma dom_foldl_add_package:
  "dom (foldl add_package g s) = dom g \<union> fst ` set s \<union> (\<Union>p\<in>set s. set (snd p))"
proof (induction s arbitrary: g)
  case Nil
  show ?case by simp
next
  case (Cons p s)
  obtain name ds where p: "p = (name, ds)" by (cases p)
  show ?case
    unfolding p using Cons [of "add_package g (name, ds)"] by auto
qed

lemma deps_of_foldl_add_package:
  "deps_of (foldl add_package g s) k =
     deps_of g k @ concat (map snd (filter (\<lambda>p. fst p = k) s))"
proof (induction s arbitrary: g)
  case Nil
  show ?case by simp
next
  case (Cons p s)
  obtain name ds where p: "p = (name, ds)" by (cases p)
  show ?case
    unfolding p using Cons [of "add_package g (name, ds)"]
    by (simp add: deps_of_add_package)
qed

lemma deps_of_empty [simp]: "deps_of Map.empty k = []"
  by (simp add: deps_of_def)

lemma dom_build: "dom (build s) = fst ` set s \<union> (\<Union>p\<in>set s. set (snd p))"
  by (simp add: build_def dom_foldl_add_package)

lemma deps_of_build: "deps_of (build s) k = concat (map snd (filter (\<lambda>p. fst p = k) s))"
  by (simp add: build_def deps_of_foldl_add_package)

lemma set_deps_of_build: "set (deps_of (build s) k) \<subseteq> dom (build s)"
  by (auto simp: deps_of_build dom_build)

lemma deps_of_Some: "g k = Some ds \<Longrightarrow> deps_of g k = ds"
  by (simp add: deps_of_def)

text \<open>The second walk, when it succeeds, is the Graph Builder on the stream of the tree.\<close>

lemma add_imports_Inr:
  "add_imports name g vs = Inr g' \<Longrightarrow> g' = foldl (add_import name) g (map unquote vs)"
  by (induction vs arbitrary: g) (auto split: if_splits)

lemma walk_build_stream:
  "walk_build M tree g = Inr g' \<Longrightarrow> g' = foldl add_package g (stream_of M tree)"
proof (induction tree arbitrary: g)
  case Nil
  then show ?case by simp
next
  case (Cons e es)
  show ?case
  proof (cases "Ext (path e) = ''.go''")
    case False
    with Cons show ?thesis by (simp split: if_splits)
  next
    case True
    with Cons.prems obtain vs g2 where
      vs: "gofile e = GoImports vs" and
      g2: "add_imports (getPackageName M (path e)) (ensure_node g (getPackageName M (path e))) vs = Inr g2" and
      rest: "walk_build M es g2 = Inr g'"
      by (auto simp: Let_def split: if_splits gofile_result.splits sum.splits)
    have "g2 = add_package g (getPackageName M (path e), map unquote vs)"
      using add_imports_Inr [OF g2] by (simp add: add_package_def)
    with Cons.IH [OF rest] True vs show ?thesis by simp
  qed
qed

lemma walk_build_parses:
  "walk_build M tree g = Inr g' \<Longrightarrow> e \<in> set tree \<Longrightarrow> Ext (path e) = ''.go'' \<Longrightarrow>
   \<exists>vs. gofile e = GoImports vs \<and> (getPackageName M (path e), map unquote vs) \<in> set (stream_of M tree)"
proof (induction tree arbitrary: g)
  case Nil
  then show ?case by simp
next
  case (Cons a es)
  show ?case
  proof (cases "Ext (path a) = ''.go''")
    case False
    with Cons show ?thesis by (auto split: if_splits)
  next
    case True
    with Cons.prems(1) obtain vs g2 where
      vs: "gofile a = GoImports vs" and
      rest: "walk_build M es g2 = Inr g'"
      by (auto simp: Let_def split: if_splits gofile_result.splits sum.splits)
    show ?thesis
    proof (cases "e = a")
      case True
      with vs \<open>Ext (path a) = ''.go''\<close> show ?thesis by simp
    next
      case False
      with Cons.prems(2) have "e \<in> set es" by simp
      from Cons.IH [OF rest this Cons.prems(3)] vs True show ?thesis by auto
    qed
  qed
qed

section \<open>The dependency graph after the walk and after the last pass\<close>

lemmas tree_defs = tree_example_def tree_aab_def tree_two_files_def tree_three_files_def tree_nomod_def tree_broken_def tree_badmod_def
  dir_entry_def gomod_entry_def go_entry_def lit_def

lemmas path_defs = Ext_def getPackageName_def Dir_def Clean_def clean_elem_def
  HasSuffix_def suffix_to_prefix HasPrefix_def

lemmas render_defs = render_def render_module_def render_dep_def mark_node_def

lemmas graph_defs = unquote_def add_import_def ensure_node_def deps_of_def add_package_def
  build_def finalize_def sort_compact_def Sort_def Compact_def compact_loop.simps Let_def

text \<open>
  Claim C1. The file \<open>pkg/file.go\<close> of module \<open>example.com/mod\<close> imports \<open>a\<close>,
  \<open>a\<close> and \<open>b\<close>. The graph handed to the rendering loop holds three imports for the
  package \<open>example.com/mod/pkg\<close>, not the two of \<open>{a, b}\<close>: with a library that zeroes
  the tail (since Go 1.22) they are \<open>a\<close>, \<open>b\<close> and the empty string, with the
  library of Go 1.21 they are \<open>a\<close>, \<open>b\<close> and \<open>b\<close> again. The same holds when the
  three imports come from two files of the package.
\<close>

theorem duplicate_import_recorded:
  "recorded True ''example.com/mod'' tree_aab ''example.com/mod/pkg'' = Inr [''a'', ''b'', ''''] \<and>
   recorded False ''example.com/mod'' tree_aab ''example.com/mod/pkg'' = Inr [''a'', ''b'', ''b''] \<and>
   recorded True ''example.com/mod'' tree_two_files ''example.com/mod/pkg'' = Inr [''a'', ''b'', ''''] \<and>
   recorded False ''example.com/mod'' tree_two_files ''example.com/mod/pkg'' = Inr [''a'', ''b'', ''b'']"
  by (simp add: recorded_def graph_of_def tree_defs path_defs graph_defs)

text \<open>
  The slice that \<open>Compact\<close> returns, which the last pass drops, is the duplicate-free
  sorted list of the imports; the entry of the map is that list only when the imports
  were distinct before.
\<close>

lemma finalize_distinct:
  "distinct (deps_of g k) \<Longrightarrow> deps_of (finalize z g) k = sort (deps_of g k)"
  by (simp add: deps_of_finalize sort_compact_distinct)

lemma finalize_duplicate:
  "\<not> distinct (deps_of g k) \<Longrightarrow>
   \<not> (distinct (deps_of (finalize z g) k) \<and> set (deps_of (finalize z g) k) = set (deps_of g k))"
  by (simp only: deps_of_finalize sort_compact_duplicate not_False_eq_True)

text \<open>
  Claim C2. In the package of two files (\<open>pkg/x.go\<close> imports \<open>a\<close> and \<open>b\<close>,
  \<open>pkg/y.go\<close> imports \<open>a\<close>) the graph handed to the rendering loop, with a library
  that zeroes the tail (since Go 1.22), holds the empty string in the list of the package
  \<open>example.com/mod/pkg\<close>, and the empty string is not a key of the map: the entry
  dangles. The package and its imports \<open>a\<close> and \<open>b\<close> are keys. With the library of
  Go 1.21 the list is \<open>a\<close>, \<open>b\<close>, \<open>b\<close>, all of them keys.
\<close>

theorem dangling_entry_after_last_pass:
  "recorded True ''example.com/mod'' tree_two_files ''example.com/mod/pkg'' = Inr [''a'', ''b'', ''''] \<and>
   is_key True ''example.com/mod'' tree_two_files '''' = Inr False \<and>
   is_key True ''example.com/mod'' tree_two_files ''example.com/mod/pkg'' = Inr True \<and>
   is_key True ''example.com/mod'' tree_two_files ''a'' = Inr True \<and>
   is_key True ''example.com/mod'' tree_two_files ''b'' = Inr True \<and>
   recorded False ''example.com/mod'' tree_two_files ''example.com/mod/pkg'' = Inr [''a'', ''b'', ''b''] \<and>
   is_key False ''example.com/mod'' tree_two_files '''' = Inr False"
  by (simp add: recorded_def is_key_def graph_of_def tree_defs path_defs graph_defs)

text \<open>
  The insertion code itself leaves no dangling entry. When the second walk succeeds, the
  package node of every source file of the tree is a key of the map it returns, and so
  is every import recorded under any key. The last pass does not change the set of keys.
\<close>

lemma no_dangling_edge:
  assumes "walk_build M tree Map.empty = Inr g"
  shows "(\<forall>e\<in>set tree. Ext (path e) = ''.go'' \<longrightarrow> getPackageName M (path e) \<in> dom g) \<and>
         (\<forall>P ds d. g P = Some ds \<longrightarrow> d \<in> set ds \<longrightarrow> P \<in> dom g \<and> d \<in> dom g) \<and>
         dom (finalize z g) = dom g"
proof (intro conjI ballI allI impI)
  have g: "g = build (stream_of M tree)"
    using walk_build_stream [OF assms] by (simp add: build_def)
  fix e
  assume "e \<in> set tree" "Ext (path e) = ''.go''"
  with walk_build_parses [OF assms] obtain vs where
    "(getPackageName M (path e), map unquote vs) \<in> set (stream_of M tree)"
    by blast
  then have "getPackageName M (path e) \<in> fst ` set (stream_of M tree)"
    by force
  then show "getPackageName M (path e) \<in> dom g"
    by (simp add: g dom_build)
next
  fix P ds d
  assume P: "g P = Some ds" and d: "d \<in> set ds"
  from P show "P \<in> dom g" by auto
  have g: "g = build (stream_of M tree)"
    using walk_build_stream [OF assms] by (simp add: build_def)
  from P have "deps_of g P = ds" by (rule deps_of_Some)
  with d set_deps_of_build [of "stream_of M tree" P] show "d \<in> dom g"
    unfolding g by auto
next
  show "dom (finalize z g) = dom g" by simp
qed

lemma no_dangling_edge_example:
  "\<exists>g. walk_build ''root'' tree_example Map.empty = Inr g \<and>
       g ''root/sub'' = Some [''root'', ''fmt''] \<and>
       ''root/sub'' \<in> dom g \<and> ''root'' \<in> dom g \<and> ''fmt'' \<in> dom g \<and>
       dom (finalize True g) = dom g"
proof -
  have "\<exists>g. walk_build ''root'' tree_example Map.empty = Inr g \<and>
      g ''root/sub'' = Some [''root'', ''fmt'']"
    by (simp add: tree_defs path_defs graph_defs)
  then obtain g where g: "walk_build ''root'' tree_example Map.empty = Inr g"
    and sub: "g ''root/sub'' = Some [''root'', ''fmt'']"
    by blast
  have e: "go_entry ''sub/a.go'' [''root'', ''fmt''] \<in> set tree_example"
    by (simp add: tree_example_def)
  have x: "Ext (path (go_entry ''sub/a.go'' [''root'', ''fmt''])) = ''.go''"
    by (simp add: go_entry_def Ext_def)
  have n: "getPackageName ''root'' (path (go_entry ''sub/a.go'' [''root'', ''fmt''])) = ''root/sub''"
    by (simp add: go_entry_def path_defs)
  from no_dangling_edge [OF g, of True] e x n sub
  have "''root/sub'' \<in> dom g" "''root'' \<in> dom g" "''fmt'' \<in> dom g"
    "dom (finalize True g) = dom g"
    by (metis, metis list.set_intros(1), metis list.set_intros(1,2), metis)
  with g sub show ?thesis by blast
qed

text \<open>
  After the last pass an entry of a list is still a key, or it is the empty string that
  a library which zeroes the tail has written over a duplicate.
\<close>

lemma entries_after_last_pass:
  assumes "walk_build M tree Map.empty = Inr g" "finalize z g P = Some ds" "d \<in> set ds"
  shows "d \<in> dom g \<or> (z \<and> d = [])"
proof -
  have g: "g = build (stream_of M tree)"
    using walk_build_stream [OF assms(1)] by (simp add: build_def)
  have sub: "set (deps_of g P) \<subseteq> dom g"
    unfolding g by (rule set_deps_of_build)
  from assms(2) have "deps_of (finalize z g) P = ds" by (rule deps_of_Some)
  then have ds: "ds = sort_compact z (deps_of g P)" by (simp add: deps_of_finalize)
  show ?thesis
  proof (cases z)
    case True
    with assms(3) sub show ?thesis
      unfolding ds by (auto simp: set_sort_compact_True split: if_splits)
  next
    case False
    with assms(3) sub show ?thesis
      unfolding ds by (auto simp: set_sort_compact_False)
  qed
qed

text \<open>
  Claim C8. The stream with the one pair (\<open>p\<close>, [\<open>a\<close>]) leaves the import \<open>a\<close> under
  \<open>p\<close>, and the rendered graph has the nodes \<open>p\<close> and \<open>a\<close> and the edge from \<open>a\<close>
  to \<open>p\<close>. Fed twice, the stream leaves two entries under \<open>p\<close>. With a library that
  zeroes the tail they are \<open>a\<close> and the empty string: the rendered graph has a third
  node, the empty name, and a second edge, from it to \<open>p\<close>. With the library of Go 1.21
  they are \<open>a\<close> twice.
\<close>

theorem stream_twice:
  "finalize True (build [(''p'', [''a''])]) ''p'' = Some [''a''] \<and>
   finalize True (build ([(''p'', [''a''])] @ [(''p'', [''a''])])) ''p'' = Some [''a'', ''''] \<and>
   finalize False (build ([(''p'', [''a''])] @ [(''p'', [''a''])])) ''p'' = Some [''a'', ''a''] \<and>
   render lit [''p'', ''a''] (finalize True (build [(''p'', [''a''])])) =
     \<lparr>nodes = [lit ''p'', lit ''a''], edges = [(lit ''a'', lit ''p'')]\<rparr> \<and>
   render lit [''p'', ''a''] (finalize True (build ([(''p'', [''a''])] @ [(''p'', [''a''])]))) =
     \<lparr>nodes = [lit ''p'', lit ''a'', lit ''''],
      edges = [(lit ''a'', lit ''p''), (lit '''', lit ''p'')]\<rparr>"
  by (simp add: graph_defs render_defs)

text \<open>
  Feeding a stream twice leaves the keys as they are and doubles every list. The slices
  that \<open>Compact\<close> returns are then the same as for the stream fed once; the entries
  of the map are not, and with a library that zeroes the tail not even as sets.
\<close>

lemma build_twice_dom: "dom (build (s @ s)) = dom (build s)"
  by (auto simp: dom_build)

lemma build_twice_deps: "deps_of (build (s @ s)) k = deps_of (build s) k @ deps_of (build s) k"
  by (simp add: deps_of_build)

lemma build_twice_returned:
  "snd (Compact z (Sort (deps_of (build (s @ s)) k))) = snd (Compact z (Sort (deps_of (build s) k)))"
  by (simp add: Compact_returns build_twice_deps)

lemma build_twice_sets_False:
  "set (deps_of (finalize False (build (s @ s))) k) = set (deps_of (finalize False (build s)) k)"
  by (simp add: deps_of_finalize set_sort_compact_False build_twice_deps)

lemma build_twice_sets_True:
  assumes "deps_of (build s) k \<noteq> []" "distinct (deps_of (build s) k)"
  shows "set (deps_of (finalize True (build (s @ s))) k) =
         insert [] (set (deps_of (finalize True (build s)) k))"
proof -
  have "\<not> distinct (deps_of (build s) k @ deps_of (build s) k)"
    using assms(1) by (cases "deps_of (build s) k") auto
  then show ?thesis
    using assms(2) by (simp add: deps_of_finalize set_sort_compact_True build_twice_deps)
qed

section \<open>Properties of the rendering loop\<close>

lemma edges_mark_node [simp]: "edges (snd (mark_node q name st)) = edges (snd st)"
  by (cases st) (simp add: mark_node_def)

lemma edges_render_dep [simp]:
  "edges (snd (render_dep q m st d)) = edges (snd st) @ [(q d, q m)]"
proof -
  obtain seen r where "mark_node q d st = (seen, r)" by (cases "mark_node q d st")
  moreover from this have "edges r = edges (snd st)"
    using edges_mark_node [of q d st] by simp
  ultimately show ?thesis by (simp add: render_dep_def)
qed

lemma edges_foldl_render_dep:
  "edges (snd (foldl (render_dep q m) st ds)) = edges (snd st) @ map (\<lambda>d. (q d, q m)) ds"
  by (induction ds arbitrary: st) simp_all

lemma edges_render_module:
  "edges (snd (render_module q g st m)) = edges (snd st) @ map (\<lambda>d. (q d, q m)) (deps_of g m)"
  by (simp add: render_module_def edges_foldl_render_dep)

lemma edges_foldl_render_module:
  "edges (snd (foldl (render_module q g) st keys)) =
     edges (snd st) @ concat (map (\<lambda>m. map (\<lambda>d. (q d, q m)) (deps_of g m)) keys)"
  by (induction keys arbitrary: st) (simp_all add: edges_render_module)

lemma edges_render:
  "edges (render q keys g) = concat (map (\<lambda>m. map (\<lambda>d. (q d, q m)) (deps_of g m)) keys)"
  by (simp add: render_def edges_foldl_render_module)

lemma count_list_distinct: "distinct ds \<Longrightarrow> d \<in> set ds \<Longrightarrow> count_list ds d = 1"
  by (induction ds) auto

lemma count_list_edges_of:
  "inj q \<Longrightarrow> count_list (map (\<lambda>d. (q d, q m)) ds) (q d, q P) = (if m = P then count_list ds d else 0)"
  by (induction ds) (auto dest: injD)

lemma count_list_edges:
  assumes "inj q" "distinct keys"
  shows "count_list (concat (map (\<lambda>m. map (\<lambda>d. (q d, q m)) (deps_of g m)) keys)) (q d, q P) =
         (if P \<in> set keys then count_list (deps_of g P) d else 0)"
  using assms(2) by (induction keys) (auto simp: count_list_edges_of [OF assms(1)])

lemma deps_of_outside: "k \<notin> dom g \<Longrightarrow> deps_of g k = []"
  by (auto simp: deps_of_def split: option.splits)

lemma inj_lit: "inj lit"
  by (rule injI) (simp add: lit_def)

text \<open>
  The rendering loop visits every key once and adds, for a key \<open>P\<close> and every entry
  \<open>d\<close> of the list stored under \<open>P\<close>, the edge from \<open>d\<close> to \<open>P\<close>: the edges
  are those pairs (dependency, dependent), as many from \<open>d\<close> to \<open>P\<close> as \<open>d\<close>
  occurs in the list of \<open>P\<close>, and so exactly one where the list has no duplicate.
\<close>

lemma edges_dependency_to_dependent:
  assumes "inj q" "distinct keys" "set keys = dom g"
  shows "edges (render q keys g) =
           concat (map (\<lambda>P. map (\<lambda>d. (q d, q P)) (deps_of g P)) keys) \<and>
         (\<forall>x y. (x, y) \<in> set (edges (render q keys g)) \<longleftrightarrow>
            (\<exists>P ds d. g P = Some ds \<and> d \<in> set ds \<and> x = q d \<and> y = q P)) \<and>
         (\<forall>P d. count_list (edges (render q keys g)) (q d, q P) = count_list (deps_of g P) d) \<and>
         (\<forall>P ds d. g P = Some ds \<and> distinct ds \<and> d \<in> set ds \<longrightarrow>
            count_list (edges (render q keys g)) (q d, q P) = 1)"
proof -
  have cnt: "count_list (edges (render q keys g)) (q d, q P) = count_list (deps_of g P) d" for P d
  proof (cases "P \<in> set keys")
    case True
    then show ?thesis
      by (simp add: edges_render count_list_edges [OF assms(1,2)])
  next
    case False
    then have "deps_of g P = []"
      using assms(3) by (simp add: deps_of_outside)
    with False show ?thesis
      by (simp add: edges_render count_list_edges [OF assms(1,2)])
  qed
  have one: "count_list (edges (render q keys g)) (q d, q P) = 1"
    if "g P = Some ds \<and> distinct ds \<and> d \<in> set ds" for P ds d
  proof -
    from that have "deps_of g P = ds" by (simp add: deps_of_Some)
    moreover from that have "count_list ds d = 1"
      by (simp add: count_list_distinct)
    ultimately show ?thesis by (simp add: cnt)
  qed
  have mem: "(x, y) \<in> set (edges (render q keys g)) \<longleftrightarrow>
      (\<exists>P ds d. g P = Some ds \<and> d \<in> set ds \<and> x = q d \<and> y = q P)" for x y
  proof
    assume "(x, y) \<in> set (edges (render q keys g))"
    then obtain P d where P: "P \<in> set keys" and d: "d \<in> set (deps_of g P)"
      and xy: "x = q d" "y = q P"
      by (auto simp: edges_render)
    from P assms(3) obtain ds where "g P = Some ds" by auto
    with d xy show "\<exists>P ds d. g P = Some ds \<and> d \<in> set ds \<and> x = q d \<and> y = q P"
      by (auto simp: deps_of_Some)
  next
    assume "\<exists>P ds d. g P = Some ds \<and> d \<in> set ds \<and> x = q d \<and> y = q P"
    then obtain P ds d where P: "g P = Some ds" and d: "d \<in> set ds" and xy: "x = q d" "y = q P"
      by blast
    from P assms(3) have "P \<in> set keys" by auto
    moreover from P d have "d \<in> set (deps_of g P)" by (simp add: deps_of_Some)
    ultimately show "(x, y) \<in> set (edges (render q keys g))"
      unfolding xy by (force simp: edges_render)
  qed
  show ?thesis
  proof (intro conjI allI impI)
    show "edges (render q keys g) =
        concat (map (\<lambda>P. map (\<lambda>d. (q d, q P)) (deps_of g P)) keys)"
      by (rule edges_render)
  qed (rule mem, rule cnt, rule one)
qed

lemma graph_example_dom: "dom graph_example = {''root'', ''fmt'', ''root/sub''}"
  by (auto simp: graph_example_def dom_build tree_defs path_defs unquote_def)

lemma graph_example_deps:
  "graph_example ''root'' = Some [''fmt'']"
  "graph_example ''root/sub'' = Some [''fmt'', ''root'']"
  "graph_example ''fmt'' = Some []"
  by (simp_all add: graph_example_def tree_defs path_defs graph_defs)

lemma edges_dependency_to_dependent_example:
  "edges (render lit [''root'', ''fmt'', ''root/sub''] graph_example) =
     [(lit ''fmt'', lit ''root''), (lit ''fmt'', lit ''root/sub''), (lit ''root'', lit ''root/sub'')] \<and>
   count_list (edges (render lit [''root'', ''fmt'', ''root/sub''] graph_example))
     (lit ''root'', lit ''root/sub'') = 1 \<and>
   (lit ''root/sub'', lit ''root'') \<notin> set (edges (render lit [''root'', ''fmt'', ''root/sub''] graph_example)) \<and>
   nodes (render lit [''root'', ''fmt'', ''root/sub''] graph_example) =
     [lit ''root'', lit ''fmt'', lit ''root/sub'']"
proof -
  let ?keys = "[''root'', ''fmt'', ''root/sub'']"
  have k: "distinct ?keys" by simp
  have d: "set ?keys = dom graph_example" by (simp add: graph_example_dom)
  note inst = edges_dependency_to_dependent [OF inj_lit k d]
  have e: "edges (render lit ?keys graph_example) =
      [(lit ''fmt'', lit ''root''), (lit ''fmt'', lit ''root/sub''), (lit ''root'', lit ''root/sub'')]"
    using inst by (simp add: deps_of_Some graph_example_deps)
  have "graph_example ''root/sub'' = Some [''fmt'', ''root''] \<and> distinct [''fmt'', ''root''] \<and>
      ''root'' \<in> set [''fmt'', ''root'']"
    by (simp add: graph_example_deps)
  with inst have c: "count_list (edges (render lit ?keys graph_example)) (lit ''root'', lit ''root/sub'') = 1"
    by blast
  have n: "(lit ''root/sub'', lit ''root'') \<notin> set (edges (render lit ?keys graph_example))"
    unfolding e by (simp add: lit_def)
  have nd: "nodes (render lit ?keys graph_example) = [lit ''root'', lit ''fmt'', lit ''root/sub'']"
    by (simp add: render_def render_module_def render_dep_def mark_node_def deps_of_Some graph_example_deps)
  from e c n nd show ?thesis by blast
qed

lemma env_files_fields:
  "zeroes (env_two_files z) = z" "sprintf_q (env_two_files z) = lit"
  "range_keys (env_two_files z) = (\<lambda>g. [''example.com/mod/pkg'', ''a'', ''b''])"
  "zeroes (env_three_files z) = z" "sprintf_q (env_three_files z) = lit"
  "range_keys (env_three_files z) = (\<lambda>g. [''example.com/mod/pkg'', ''a''])"
  by (simp_all add: env_two_files_def env_three_files_def env_example_def)

text \<open>
  Claim C4. Every edge of the rendered graph points from the dependency to the
  dependent, but not every pair gets exactly one. In the package of two files the run
  with the library of Go 1.21 adds the edge from \<open>b\<close> to the package twice, since the
  list of the package is \<open>a\<close>, \<open>b\<close>, \<open>b\<close>. In the package of three files the run
  with a library that zeroes the tail adds the edge from the empty name to the package
  twice, since the list is \<open>a\<close> and the empty string twice.
\<close>

theorem duplicate_edges_rendered:
  "recorded False ''example.com/mod'' tree_two_files ''example.com/mod/pkg'' = Inr [''a'', ''b'', ''b''] \<and>
   analyse (env_two_files False) tree_two_files =
     Inr \<lparr>nodes = [lit ''example.com/mod/pkg'', lit ''a'', lit ''b''],
          edges = [(lit ''a'', lit ''example.com/mod/pkg''), (lit ''b'', lit ''example.com/mod/pkg''),
                   (lit ''b'', lit ''example.com/mod/pkg'')]\<rparr> \<and>
   recorded True ''example.com/mod'' tree_three_files ''example.com/mod/pkg'' = Inr [''a'', '''', ''''] \<and>
   analyse (env_three_files True) tree_three_files =
     Inr \<lparr>nodes = [lit ''example.com/mod/pkg'', lit ''a'', lit ''''],
          edges = [(lit ''a'', lit ''example.com/mod/pkg''), (lit '''', lit ''example.com/mod/pkg''),
                   (lit '''', lit ''example.com/mod/pkg'')]\<rparr>"
proof (intro conjI)
  show "recorded False ''example.com/mod'' tree_two_files ''example.com/mod/pkg'' = Inr [''a'', ''b'', ''b'']"
    by (simp add: recorded_def graph_of_def tree_defs path_defs graph_defs)
  show "recorded True ''example.com/mod'' tree_three_files ''example.com/mod/pkg'' = Inr [''a'', '''', '''']"
    by (simp add: recorded_def graph_of_def tree_defs path_defs graph_defs)
  have m2: "walk_gomod tree_two_files [] = Inr ''example.com/mod''"
    by (simp add: tree_defs path_defs)
  have g2: "\<exists>g. graph_of False ''example.com/mod'' tree_two_files = Inr g \<and>
      deps_of g ''example.com/mod/pkg'' = [''a'', ''b'', ''b''] \<and>
      deps_of g ''a'' = [] \<and> deps_of g ''b'' = []"
    by (simp add: graph_of_def tree_defs path_defs graph_defs)
  then obtain g where g: "graph_of False ''example.com/mod'' tree_two_files = Inr g"
    and d: "deps_of g ''example.com/mod/pkg'' = [''a'', ''b'', ''b'']"
      "deps_of g ''a'' = []" "deps_of g ''b'' = []"
    by blast
  have "render lit [''example.com/mod/pkg'', ''a'', ''b''] g =
      \<lparr>nodes = [lit ''example.com/mod/pkg'', lit ''a'', lit ''b''],
       edges = [(lit ''a'', lit ''example.com/mod/pkg''), (lit ''b'', lit ''example.com/mod/pkg''),
                (lit ''b'', lit ''example.com/mod/pkg'')]\<rparr>"
    by (simp add: render_defs d)
  with m2 g show "analyse (env_two_files False) tree_two_files =
     Inr \<lparr>nodes = [lit ''example.com/mod/pkg'', lit ''a'', lit ''b''],
          edges = [(lit ''a'', lit ''example.com/mod/pkg''), (lit ''b'', lit ''example.com/mod/pkg''),
                   (lit ''b'', lit ''example.com/mod/pkg'')]\<rparr>"
    by (simp add: analyse_def env_files_fields)
  have m3: "walk_gomod tree_three_files [] = Inr ''example.com/mod''"
    by (simp add: tree_defs path_defs)
  have g3: "\<exists>g. graph_of True ''example.com/mod'' tree_three_files = Inr g \<and>
      deps_of g ''example.com/mod/pkg'' = [''a'', '''', ''''] \<and> deps_of g ''a'' = []"
    by (simp add: graph_of_def tree_defs path_defs graph_defs)
  then obtain h where h: "graph_of True ''example.com/mod'' tree_three_files = Inr h"
    and e: "deps_of h ''example.com/mod/pkg'' = [''a'', '''', '''']" "deps_of h ''a'' = []"
    by blast
  have "render lit [''example.com/mod/pkg'', ''a''] h =
      \<lparr>nodes = [lit ''example.com/mod/pkg'', lit ''a'', lit ''''],
       edges = [(lit ''a'', lit ''example.com/mod/pkg''), (lit '''', lit ''example.com/mod/pkg''),
                (lit '''', lit ''example.com/mod/pkg'')]\<rparr>"
    by (simp add: render_defs e)
  with m3 h show "analyse (env_three_files True) tree_three_files =
     Inr \<lparr>nodes = [lit ''example.com/mod/pkg'', lit ''a'', lit ''''],
          edges = [(lit ''a'', lit ''example.com/mod/pkg''), (lit '''', lit ''example.com/mod/pkg''),
                   (lit '''', lit ''example.com/mod/pkg'')]\<rparr>"
    by (simp add: analyse_def env_files_fields)
qed

lemma mark_node_nodes:
  assumes "inj q" "set (nodes (snd st)) = q ` fst st" "distinct (nodes (snd st))"
  shows "set (nodes (snd (mark_node q name st))) = q ` fst (mark_node q name st) \<and>
         distinct (nodes (snd (mark_node q name st))) \<and>
         fst (mark_node q name st) = insert name (fst st)"
  using assms by (cases st) (auto simp: mark_node_def dest: injD)

lemma render_dep_nodes:
  assumes "inj q" "set (nodes (snd st)) = q ` fst st" "distinct (nodes (snd st))"
  shows "set (nodes (snd (render_dep q m st d))) = q ` fst (render_dep q m st d) \<and>
         distinct (nodes (snd (render_dep q m st d))) \<and>
         fst (render_dep q m st d) = insert d (fst st)"
proof -
  obtain seen r where m: "mark_node q d st = (seen, r)" by (cases "mark_node q d st")
  with mark_node_nodes [OF assms, of d] show ?thesis
    by (simp add: render_dep_def)
qed

lemma foldl_render_dep_nodes:
  assumes "inj q"
  shows "set (nodes (snd st)) = q ` fst st \<Longrightarrow> distinct (nodes (snd st)) \<Longrightarrow>
    set (nodes (snd (foldl (render_dep q m) st ds))) = q ` fst (foldl (render_dep q m) st ds) \<and>
    distinct (nodes (snd (foldl (render_dep q m) st ds))) \<and>
    fst (foldl (render_dep q m) st ds) = fst st \<union> set ds"
proof (induction ds arbitrary: st)
  case Nil
  then show ?case by simp
next
  case (Cons d ds)
  from render_dep_nodes [OF assms Cons.prems, of m d] Cons.IH [of "render_dep q m st d"]
  show ?case by simp
qed

lemma render_module_nodes:
  assumes "inj q" "set (nodes (snd st)) = q ` fst st" "distinct (nodes (snd st))"
  shows "set (nodes (snd (render_module q g st m))) = q ` fst (render_module q g st m) \<and>
    distinct (nodes (snd (render_module q g st m))) \<and>
    fst (render_module q g st m) = insert m (fst st \<union> set (deps_of g m))"
proof -
  from mark_node_nodes [OF assms, of m] foldl_render_dep_nodes [OF assms(1), of "mark_node q m st" m "deps_of g m"]
  show ?thesis by (simp add: render_module_def)
qed

lemma foldl_render_module_nodes:
  assumes "inj q"
  shows "set (nodes (snd st)) = q ` fst st \<Longrightarrow> distinct (nodes (snd st)) \<Longrightarrow>
    set (nodes (snd (foldl (render_module q g) st keys))) = q ` fst (foldl (render_module q g) st keys) \<and>
    distinct (nodes (snd (foldl (render_module q g) st keys))) \<and>
    fst (foldl (render_module q g) st keys) = fst st \<union> set keys \<union> (\<Union>k\<in>set keys. set (deps_of g k))"
proof (induction keys arbitrary: st)
  case Nil
  then show ?case by simp
next
  case (Cons k keys)
  from render_module_nodes [OF assms Cons.prems, of g k] Cons.IH [of "render_module q g st k"]
  show ?case by auto
qed

text \<open>Every package node, key or import, becomes one node of the rendered graph.\<close>

lemma nodes_render:
  assumes "inj q"
  shows "set (nodes (render q keys g)) = q ` (set keys \<union> (\<Union>k\<in>set keys. set (deps_of g k)))"
    and "distinct (nodes (render q keys g))"
  using foldl_render_module_nodes [OF assms, of "({}, \<lparr>nodes = [], edges = []\<rparr>)" g keys]
  by (simp_all add: render_def)

section \<open>Properties of the run\<close>

lemmas main_defs = main_def analyse_def graph_of_def convertHTTPtoSSH_def
  env_example_def env_nomod_def env_broken_def

lemma walk_gomod_errors:
  "walk_gomod tree m = Inl f \<Longrightarrow> f \<in> {GoModSearchError, GoModParseError, NilModulePanic}"
  by (induction tree arbitrary: m) (auto split: if_splits modfile_result.splits)

lemma walk_gomod_parse_failure:
  "e \<in> set tree \<Longrightarrow> HasSuffix (path e) ''go.mod'' \<Longrightarrow> modfile e = ModParseError \<Longrightarrow>
   \<exists>f. walk_gomod tree m = Inl f"
proof (induction tree arbitrary: m)
  case Nil
  then show ?case by simp
next
  case (Cons a es)
  show ?case
  proof (cases "e = a")
    case True
    with Cons.prems show ?thesis by simp
  next
    case False
    with Cons.prems have "e \<in> set es" by simp
    from Cons.IH [OF this Cons.prems(2,3)] show ?thesis
      by (simp split: modfile_result.splits)
  qed
qed

lemma walk_gomod_no_gomod:
  "\<forall>e\<in>set tree. \<not> walk_err e \<and> \<not> HasSuffix (path e) ''go.mod'' \<Longrightarrow> walk_gomod tree m = Inr m"
  by (induction tree) simp_all

lemma walk_gomod_Inr:
  "walk_gomod tree m = Inr M \<Longrightarrow>
   M = m \<or> (\<exists>e\<in>set tree. HasSuffix (path e) ''go.mod'' \<and> modfile e = ModPath M)"
proof (induction tree arbitrary: m)
  case Nil
  then show ?case by simp
next
  case (Cons a es)
  show ?case
  proof (cases "HasSuffix (path a) ''go.mod''")
    case False
    with Cons.prems have "walk_gomod es m = Inr M" by (simp split: if_splits)
    from Cons.IH [OF this] show ?thesis by auto
  next
    case True
    with Cons.prems obtain p where p: "modfile a = ModPath p" and r: "walk_gomod es p = Inr M"
      by (auto split: if_splits modfile_result.splits)
    from Cons.IH [OF r] p True show ?thesis by auto
  qed
qed

lemma walk_build_append:
  "walk_build M (pre @ post) g =
     (case walk_build M pre g of Inl f \<Rightarrow> Inl f | Inr g' \<Rightarrow> walk_build M post g')"
  by (induction pre arbitrary: g) (simp_all add: Let_def split: gofile_result.splits sum.splits)

lemma walk_build_parse_failure:
  assumes "e \<in> set tree" "Ext (path e) = ''.go''" "gofile e = GoParseError"
  shows "\<exists>f. walk_build M tree g = Inl f"
proof (cases "walk_build M tree g")
  case (Inl f)
  then show ?thesis by simp
next
  case (Inr g')
  from walk_build_parses [OF Inr assms(1,2)] assms(3) show ?thesis by simp
qed

lemma analyse_gomod_fatal: "walk_gomod tree [] = Inl f \<Longrightarrow> analyse env tree = Inl f"
  by (simp add: analyse_def)

lemma analyse_walk_fatal:
  "walk_gomod tree [] = Inr M \<Longrightarrow> walk_build M tree Map.empty = Inl f \<Longrightarrow> analyse env tree = Inl f"
  by (simp add: analyse_def graph_of_def)

lemma main_analyse_fatal:
  assumes "convertHTTPtoSSH (args env ! 1) = Inr url" "clone env url = Worktree tree"
    "analyse env tree = Inl f"
  shows "\<exists>f'. snd (main env) = Inl f'"
  using assms by (simp add: main_def)

lemma main_Inr:
  assumes "snd (main env) = Inr r"
  shows "\<exists>url tree. convertHTTPtoSSH (args env ! 1) = Inr url \<and> clone env url = Worktree tree \<and>
     analyse env tree = Inr r"
  using assms
  by (auto simp: main_def split: if_splits sum.splits clone_result.splits)

text \<open>
  Claim C6. A location argument that does not begin with \<open>https://\<close> ends the run
  with a fatal error, and the run has not cloned: when \<open>dot\<close> is installed the only
  effect is the run of \<open>dot -V\<close> and the error is the one of the invalid link.
\<close>

theorem invalid_location_rejected:
  assumes "1 < length (args env)" "\<not> HasPrefix (args env ! 1) ''https://''"
  shows "(\<exists>f. snd (main env) = Inl f) \<and>
         (\<forall>url. GitClone url \<notin> set (fst (main env))) \<and>
         fst (main env) = [ExecDotVersion] \<and>
         (dot_version_ok env \<longrightarrow>
            main env = ([ExecDotVersion], Inl (InvalidLink ''invalid URL format'')))"
proof -
  have "convertHTTPtoSSH (args env ! 1) = Inl ''invalid URL format''"
    using assms(2) by (simp add: convertHTTPtoSSH_def)
  then show ?thesis
    using assms(1) by (simp add: main_def)
qed

theorem invalid_location_rejected_witness:
  "main (env_example\<lparr>args := [''go-dep-visual'', ''git@github.com:user/repo'']\<rparr>) =
     ([ExecDotVersion], Inl (InvalidLink ''invalid URL format''))"
proof -
  let ?env = "env_example\<lparr>args := [''go-dep-visual'', ''git@github.com:user/repo'']\<rparr>"
  have a: "1 < length (args ?env)" by simp
  have b: "\<not> HasPrefix (args ?env ! 1) ''https://''" by (simp add: HasPrefix_def)
  have c: "dot_version_ok ?env" by (simp add: env_example_def)
  from invalid_location_rejected [OF a b] c show ?thesis by blast
qed

text \<open>
  Claim C7. A source file (a path with extension \<open>.go\<close>) whose import section does not
  parse is fatal: the analysis of a tree that holds one never yields a graph, and a run
  that cloned the tree ends with a fatal error. When nothing fails before it, the error
  is the one of \<open>parser.ParseFile\<close>.
\<close>

theorem unparsable_file_fatal:
  assumes "e \<in> set tree" "Ext (path e) = ''.go''" "gofile e = GoParseError"
  shows "(\<exists>f. analyse env tree = Inl f) \<and>
         (convertHTTPtoSSH (args env ! 1) = Inr url \<and> clone env url = Worktree tree \<longrightarrow>
            (\<exists>f. snd (main env) = Inl f)) \<and>
         (\<forall>pre post M g. tree = pre @ e # post \<and> walk_gomod tree [] = Inr M \<and>
            walk_build M pre Map.empty = Inr g \<and> \<not> walk_err e \<and> \<not> open_err e \<longrightarrow>
            analyse env tree = Inl ParseFileError)"
proof -
  have fatal: "\<exists>f. analyse env tree = Inl f"
  proof (cases "walk_gomod tree []")
    case (Inl f)
    then show ?thesis by (simp add: analyse_gomod_fatal)
  next
    case (Inr M)
    from walk_build_parse_failure [OF assms] obtain f where
      "walk_build M tree Map.empty = Inl f" by blast
    with Inr show ?thesis by (simp add: analyse_walk_fatal)
  qed
  have run: "\<exists>f. snd (main env) = Inl f"
    if "convertHTTPtoSSH (args env ! 1) = Inr url \<and> clone env url = Worktree tree"
    using that fatal main_analyse_fatal by blast
  have first: "analyse env tree = Inl ParseFileError"
    if "tree = pre @ e # post \<and> walk_gomod tree [] = Inr M \<and>
        walk_build M pre Map.empty = Inr g \<and> \<not> walk_err e \<and> \<not> open_err e" for pre post M g
  proof -
    from that have t: "tree = pre @ e # post" and m: "walk_gomod tree [] = Inr M"
      and p: "walk_build M pre Map.empty = Inr g" and ne: "\<not> walk_err e" "\<not> open_err e"
      by blast+
    have "walk_build M (e # post) g = Inl ParseFileError"
      using ne assms(2,3) by (simp add: Let_def)
    with p have w: "walk_build M tree Map.empty = Inl ParseFileError"
      unfolding t by (simp add: walk_build_append)
    from m w show ?thesis by (rule analyse_walk_fatal)
  qed
  show ?thesis
  proof (intro conjI allI impI)
    show "\<exists>f. analyse env tree = Inl f" by (rule fatal)
  qed (rule run, assumption, rule first, assumption)
qed

lemma main_cloned:
  assumes "dot_version_ok env" "1 < length (args env)"
    "convertHTTPtoSSH (args env ! 1) = Inr url" "key_file env = KeyOk"
    "clone env url = Worktree tree"
  shows "main env =
    (case analyse env tree of
       Inl f \<Rightarrow> ([ExecDotVersion, ReadKeyFile, GitClone url], Inl f)
     | Inr r \<Rightarrow>
         if \<not> write_ok env then
           ([ExecDotVersion, ReadKeyFile, GitClone url, WriteGraphDot r], Inl WriteFileError)
         else if \<not> dot_pdf_ok env then
           ([ExecDotVersion, ReadKeyFile, GitClone url, WriteGraphDot r, ExecDotPdf], Inl DotPanic)
         else ([ExecDotVersion, ReadKeyFile, GitClone url, WriteGraphDot r, ExecDotPdf], Inr r))"
  using assms by (simp add: main_def)

lemma env_broken_stages:
  "dot_version_ok env_broken" "1 < length (args env_broken)"
  "convertHTTPtoSSH (args env_broken ! 1) = Inr ''git@github.com:user/repo''"
  "key_file env_broken = KeyOk"
  "clone env_broken ''git@github.com:user/repo'' = Worktree tree_broken"
  by (simp_all add: env_broken_def env_example_def convertHTTPtoSSH_def HasPrefix_def)

lemma env_nomod_stages:
  "dot_version_ok env_nomod" "1 < length (args env_nomod)"
  "convertHTTPtoSSH (args env_nomod ! 1) = Inr ''git@github.com:user/repo''"
  "key_file env_nomod = KeyOk"
  "clone env_nomod ''git@github.com:user/repo'' = Worktree tree_nomod"
  by (simp_all add: env_nomod_def env_example_def convertHTTPtoSSH_def HasPrefix_def)

lemma env_nomod_fields:
  "zeroes env_nomod = True" "sprintf_q env_nomod = lit"
  "range_keys env_nomod = (\<lambda>g. [''.'', ''fmt''])" "write_ok env_nomod" "dot_pdf_ok env_nomod"
  by (simp_all add: env_nomod_def env_example_def)

theorem unparsable_file_fatal_witness:
  "analyse env_broken tree_broken = Inl ParseFileError \<and>
   main env_broken =
     ([ExecDotVersion, ReadKeyFile, GitClone ''git@github.com:user/repo''], Inl ParseFileError)"
proof -
  let ?e = "\<lparr>path = ''sub/b.go'', walk_err = False, open_err = False, read_err = False,
       modfile = ModParseError, gofile = GoParseError\<rparr>"
  have e: "?e \<in> set tree_broken" by (simp add: tree_broken_def)
  have x: "Ext (path ?e) = ''.go''" by (simp add: Ext_def)
  have p: "gofile ?e = GoParseError" by simp
  have t: "tree_broken = tree_example @ ?e # []" by (simp add: tree_broken_def)
  have m: "walk_gomod tree_broken [] = Inr ''root''"
    by (simp add: tree_defs path_defs)
  have "\<exists>g. walk_build ''root'' tree_example Map.empty = Inr g"
    by (simp add: tree_defs path_defs graph_defs)
  then obtain g where g: "walk_build ''root'' tree_example Map.empty = Inr g" ..
  have n: "\<not> walk_err ?e" "\<not> open_err ?e" by simp_all
  from unparsable_file_fatal [OF e x p, of env_broken] t m g n
  have a: "analyse env_broken tree_broken = Inl ParseFileError" by blast
  have "main env_broken =
     ([ExecDotVersion, ReadKeyFile, GitClone ''git@github.com:user/repo''], Inl ParseFileError)"
    using main_cloned [OF env_broken_stages] by (simp add: a)
  with a show ?thesis by simp
qed

text \<open>
  Claim C5. The tree \<open>tree_nomod\<close> has no \<open>go.mod\<close>: the first walk ends without
  error and leaves the module's name empty, and the run goes on to its end with the
  package node \<open>.\<close> for \<open>main.go\<close>.
\<close>

theorem missing_gomod_continues:
  "\<not> list_ex (\<lambda>e. HasSuffix (path e) ''go.mod'') tree_nomod \<and>
   walk_gomod tree_nomod [] = Inr [] \<and>
   main env_nomod =
     ([ExecDotVersion, ReadKeyFile, GitClone ''git@github.com:user/repo'',
       WriteGraphDot \<lparr>nodes = [lit ''.'', lit ''fmt''], edges = [(lit ''fmt'', lit ''.'')]\<rparr>,
       ExecDotPdf],
      Inr \<lparr>nodes = [lit ''.'', lit ''fmt''], edges = [(lit ''fmt'', lit ''.'')]\<rparr>)"
proof (intro conjI)
  show "\<not> list_ex (\<lambda>e. HasSuffix (path e) ''go.mod'') tree_nomod"
    by (simp add: tree_defs path_defs)
  show m: "walk_gomod tree_nomod [] = Inr []"
    by (simp add: tree_defs path_defs)
  have g: "\<exists>g. graph_of True [] tree_nomod = Inr g \<and> deps_of g ''.'' = [''fmt''] \<and> deps_of g ''fmt'' = []"
    by (simp add: graph_of_def tree_defs path_defs graph_defs)
  then obtain g where g: "graph_of True [] tree_nomod = Inr g"
    and d: "deps_of g ''.'' = [''fmt'']" "deps_of g ''fmt'' = []" by blast
  have r: "render lit [''.'', ''fmt''] g =
      \<lparr>nodes = [lit ''.'', lit ''fmt''], edges = [(lit ''fmt'', lit ''.'')]\<rparr>"
    by (simp add: render_defs d)
  have a: "analyse env_nomod tree_nomod =
      Inr \<lparr>nodes = [lit ''.'', lit ''fmt''], edges = [(lit ''fmt'', lit ''.'')]\<rparr>"
    using m g r by (simp add: analyse_def env_nomod_fields)
  show "main env_nomod =
     ([ExecDotVersion, ReadKeyFile, GitClone ''git@github.com:user/repo'',
       WriteGraphDot \<lparr>nodes = [lit ''.'', lit ''fmt''], edges = [(lit ''fmt'', lit ''.'')]\<rparr>,
       ExecDotPdf],
      Inr \<lparr>nodes = [lit ''.'', lit ''fmt''], edges = [(lit ''fmt'', lit ''.'')]\<rparr>)"
    using main_cloned [OF env_nomod_stages] by (simp add: a env_nomod_fields)
qed

text \<open>
  Claim C5, as the code has it. A \<open>go.mod\<close> in the tree that fails to parse is fatal:
  the first walk ends with an error, which ends the analysis before the second walk
  builds anything, and a run that cloned the tree ends with a fatal error. A tree in
  which the walk meets no error and no path ending in \<open>go.mod\<close> leaves the module's
  name empty, and the analysis goes on with the empty name.
\<close>

theorem module_resolution:
  "(e \<in> set tree \<and> HasSuffix (path e) ''go.mod'' \<and> modfile e = ModParseError \<longrightarrow>
      (\<exists>f. walk_gomod tree [] = Inl f \<and> analyse env tree = Inl f) \<and>
      (convertHTTPtoSSH (args env ! 1) = Inr url \<and> clone env url = Worktree tree \<longrightarrow>
         (\<exists>f. snd (main env) = Inl f))) \<and>
   ((\<forall>a\<in>set tree. \<not> walk_err a \<and> \<not> HasSuffix (path a) ''go.mod'') \<longrightarrow>
      walk_gomod tree [] = Inr [] \<and>
      analyse env tree =
        (case graph_of (zeroes env) [] tree of
           Inl f \<Rightarrow> Inl f
         | Inr g \<Rightarrow> Inr (render (sprintf_q env) (range_keys env g) g)))"
proof (intro conjI impI)
  assume a: "e \<in> set tree \<and> HasSuffix (path e) ''go.mod'' \<and> modfile e = ModParseError"
  then obtain f where f: "walk_gomod tree [] = Inl f"
    using walk_gomod_parse_failure [of e tree "[]"] by blast
  then have an: "analyse env tree = Inl f" by (rule analyse_gomod_fatal)
  with f show "\<exists>f. walk_gomod tree [] = Inl f \<and> analyse env tree = Inl f" by blast
  assume "convertHTTPtoSSH (args env ! 1) = Inr url \<and> clone env url = Worktree tree"
  with an show "\<exists>f. snd (main env) = Inl f"
    using main_analyse_fatal by blast
next
  assume a: "\<forall>a\<in>set tree. \<not> walk_err a \<and> \<not> HasSuffix (path a) ''go.mod''"
  then show m: "walk_gomod tree [] = Inr []" by (rule walk_gomod_no_gomod)
  then show "analyse env tree =
        (case graph_of (zeroes env) [] tree of
           Inl f \<Rightarrow> Inl f
         | Inr g \<Rightarrow> Inr (render (sprintf_q env) (range_keys env g) g))"
    by (simp add: analyse_def)
qed

theorem module_resolution_witness:
  "(\<exists>f. walk_gomod tree_badmod [] = Inl f \<and> analyse env_example tree_badmod = Inl f) \<and>
   (\<exists>f. snd (main (env_example\<lparr>clone := (\<lambda>url. Worktree tree_badmod)\<rparr>)) = Inl f) \<and>
   walk_gomod tree_nomod [] = Inr [] \<and>
   analyse env_nomod tree_nomod =
     (case graph_of True [] tree_nomod of
        Inl f \<Rightarrow> Inl f
      | Inr g \<Rightarrow> Inr (render lit [''.'', ''fmt''] g))"
proof -
  let ?e = "\<lparr>path = ''go.mod'', walk_err = False, open_err = False, read_err = False,
       modfile = ModParseError, gofile = GoParseError\<rparr>"
  let ?env = "env_example\<lparr>clone := (\<lambda>url. Worktree tree_badmod)\<rparr>"
  have 1: "?e \<in> set tree_badmod \<and> HasSuffix (path ?e) ''go.mod'' \<and> modfile ?e = ModParseError"
    by (simp add: tree_badmod_def HasSuffix_def)
  have 2: "convertHTTPtoSSH (args ?env ! 1) = Inr ''git@github.com:user/repo'' \<and>
      clone ?env ''git@github.com:user/repo'' = Worktree tree_badmod"
    by (simp add: env_example_def convertHTTPtoSSH_def HasPrefix_def)
  have 3: "\<forall>a\<in>set tree_nomod. \<not> walk_err a \<and> \<not> HasSuffix (path a) ''go.mod''"
    by (simp add: tree_defs path_defs)
  note z = env_nomod_fields(1-3)
  from module_resolution [of ?e tree_badmod env_example] 1
  have a: "\<exists>f. walk_gomod tree_badmod [] = Inl f \<and> analyse env_example tree_badmod = Inl f"
    by blast
  from module_resolution [of ?e tree_badmod ?env "''git@github.com:user/repo''"] 1 2
  have b: "\<exists>f. snd (main ?env) = Inl f"
    by blast
  from module_resolution [of _ tree_nomod env_nomod] 3
  have c: "walk_gomod tree_nomod [] = Inr [] \<and>
      analyse env_nomod tree_nomod =
        (case graph_of True [] tree_nomod of
           Inl f \<Rightarrow> Inl f
         | Inr g \<Rightarrow> Inr (render lit [''.'', ''fmt''] g))"
    unfolding z by blast
  from a b c show ?thesis by blast
qed

end
